theory Spec2Isabelle
  imports
    Complex_Main
    "HOL-Library.AList"
    "HOL-Library.Char_ord"
    "HOL-Library.List_Lexorder"
    "HOL-Library.Multiset"
begin

section \<open>Talent tree template (talents/models.py)\<close>

text \<open>
  The template classes are plain data. \<open>TalentTreeNode.parent_nodes\<close> and
  \<open>child_nodes\<close> hold references to other nodes; the optimizer reads only the
  \<open>node_id\<close> of such a reference and then looks the node up by that id, so a
  reference is modelled by the id it carries. Two field names are suffixed because
  they would clash: the node's \<open>gate_id\<close> is \<open>node_gate_id\<close> (the
  gate has a \<open>gate_id\<close> of its own) and the node's \<open>sort_key\<close> is
  \<open>node_sort_key\<close> (the list library has a \<open>sort_key\<close>).
\<close>

record ChoiceNodeTalent =
  talent_name :: string
  max_points :: int

record TalentTreeNode =
  node_id :: string
  choices :: "ChoiceNodeTalent list"
  node_gate_id :: int
  parent_nodes :: "string list"
  child_nodes :: "string list"
  node_sort_key :: string

record Gate =
  gate_id :: int
  points_required_below :: int

record GateInfo =
  gates :: "Gate list"

record TalentTree =
  gate_info :: GateInfo
  nodes :: "TalentTreeNode list"

section \<open>Allocation state (optimizer/talents/player_choice)\<close>

datatype error = ValueError | KeyError | IndexError | RuntimeError | DecrementNotPossible

record PlayerTalentNodeSelection =
  node_reference :: TalentTreeNode
  points_spent_by_choice_index :: "int list"

text \<open>\<open>PlayerTalentNodeSelection.__init__\<close>: the two lists must have the same length.\<close>

definition PlayerTalentNodeSelection_init ::
  "TalentTreeNode \<Rightarrow> int list \<Rightarrow> error + PlayerTalentNodeSelection" where
  "PlayerTalentNodeSelection_init node pts =
     (if length pts \<noteq> length (choices node) then Inl ValueError
      else Inr \<lparr>node_reference = node, points_spent_by_choice_index = pts\<rparr>)"

definition has_fully_skilled_choice :: "PlayerTalentNodeSelection \<Rightarrow> bool" where
  "has_fully_skilled_choice s =
     list_ex (\<lambda>(choice, points_spent). max_points choice = points_spent)
       (zip (choices (node_reference s)) (points_spent_by_choice_index s))"

text \<open>\<open>any(xs)\<close> on a list of integers: some entry is not zero.\<close>

definition holds_talent_points :: "PlayerTalentNodeSelection \<Rightarrow> bool" where
  "holds_talent_points s = list_ex (\<lambda>p. p \<noteq> 0) (points_spent_by_choice_index s)"

definition get_choice_indices_with_points :: "PlayerTalentNodeSelection \<Rightarrow> int list" where
  "get_choice_indices_with_points s =
     map (\<lambda>(i, points). int i)
       (filter (\<lambda>(i, points). points > 0) (enumerate 0 (points_spent_by_choice_index s)))"

definition violates_single_choice_rule :: "PlayerTalentNodeSelection \<Rightarrow> bool" where
  "violates_single_choice_rule s =
     (length (filter (\<lambda>points. points > 0) (points_spent_by_choice_index s)) > 1)"

text \<open>
  \<open>remove_point_from_choice\<close>: the index is checked against the number of choices,
  the read of the points list raises IndexError where that list is shorter.
\<close>

definition remove_point_from_choice ::
  "PlayerTalentNodeSelection \<Rightarrow> int \<Rightarrow> error + PlayerTalentNodeSelection" where
  "remove_point_from_choice s choice_index =
     (if choice_index < 0 \<or> choice_index \<ge> int (length (choices (node_reference s)))
      then Inl ValueError
      else if nat choice_index \<ge> length (points_spent_by_choice_index s) then Inl IndexError
      else if points_spent_by_choice_index s ! nat choice_index \<le> 0 then Inl ValueError
      else Inr (s\<lparr>points_spent_by_choice_index :=
                  (points_spent_by_choice_index s)
                    [nat choice_index := points_spent_by_choice_index s ! nat choice_index - 1]\<rparr>))"

text \<open>
  A \<open>PlayerTalentTree\<close>. The dictionary \<open>_selection_by_node_id\<close> keeps its
  insertion order, which \<open>find_nodes_to_decrement\<close> and \<open>skill_all_nodes\<close>
  iterate, so it is an association list written with \<open>AList.update\<close> (a new key
  goes to the end, an old key keeps its place). \<open>_spent_points_by_gate\<close> is a
  \<open>defaultdict(int)\<close> that is only read with \<open>get(k, 0)\<close> and written with
  \<open>+=\<close> and \<open>-=\<close>: a total function with value 0 where nothing was stored.
  \<open>_template_node_by_id\<close> is assigned once from the template and never changed;
  it is the function \<open>template_node_by_id\<close> of the template.
\<close>

record PlayerTalentTree =
  tree_template :: TalentTree
  max_points_available :: int
  selection_by_node_id :: "(string \<times> PlayerTalentNodeSelection) list"
  spent_points_by_gate :: "int \<Rightarrow> int"

text \<open>\<open>{node.node_id: node for node in tree_template.nodes}\<close>: the last node of an id wins.\<close>

definition template_node_by_id :: "TalentTree \<Rightarrow> string \<Rightarrow> TalentTreeNode option" where
  "template_node_by_id tmpl = map_of (rev (map (\<lambda>node. (node_id node, node)) (nodes tmpl)))"

fun get_empty_selections_loop ::
  "TalentTreeNode list \<Rightarrow> (string \<times> PlayerTalentNodeSelection) list
     \<Rightarrow> error + (string \<times> PlayerTalentNodeSelection) list" where
  "get_empty_selections_loop [] acc = Inr acc"
| "get_empty_selections_loop (node # rest) acc =
     (case PlayerTalentNodeSelection_init node (map (\<lambda>_. 0) (choices node)) of
        Inl e \<Rightarrow> Inl e
      | Inr selection \<Rightarrow>
          get_empty_selections_loop rest (AList.update (node_id node) selection acc))"

definition get_empty_selections_dict ::
  "TalentTree \<Rightarrow> error + (string \<times> PlayerTalentNodeSelection) list" where
  "get_empty_selections_dict tmpl = get_empty_selections_loop (nodes tmpl) []"

definition PlayerTalentTree_init :: "TalentTree \<Rightarrow> int \<Rightarrow> error + PlayerTalentTree" where
  "PlayerTalentTree_init tmpl max_points_avail =
     (case get_empty_selections_dict tmpl of
        Inl e \<Rightarrow> Inl e
      | Inr sels \<Rightarrow>
          Inr \<lparr>tree_template = tmpl, max_points_available = max_points_avail,
               selection_by_node_id = sels, spent_points_by_gate = (\<lambda>_. 0)\<rparr>)"

fun copy_loop ::
  "(string \<times> PlayerTalentNodeSelection) list \<Rightarrow> (string \<times> PlayerTalentNodeSelection) list
     \<Rightarrow> error + (string \<times> PlayerTalentNodeSelection) list" where
  "copy_loop [] acc = Inr acc"
| "copy_loop ((nid, selection) # rest) acc =
     (case PlayerTalentNodeSelection_init (node_reference selection)
             (points_spent_by_choice_index selection) of
        Inl e \<Rightarrow> Inl e
      | Inr new_selection \<Rightarrow> copy_loop rest (AList.update nid new_selection acc))"

definition copy :: "PlayerTalentTree \<Rightarrow> error + PlayerTalentTree" where
  "copy t =
     (case PlayerTalentTree_init (tree_template t) (max_points_available t) of
        Inl e \<Rightarrow> Inl e
      | Inr new_tree \<Rightarrow>
          (case copy_loop (selection_by_node_id t) (selection_by_node_id new_tree) of
             Inl e \<Rightarrow> Inl e
           | Inr sels \<Rightarrow>
               Inr (new_tree\<lparr>selection_by_node_id := sels,
                             spent_points_by_gate := spent_points_by_gate t\<rparr>)))"

text \<open>
  \<open>skill_all_nodes\<close>: the inner loop runs over \<open>enumerate(choices)\<close> of one
  selection and carries that selection's points list and the gate totals; the outer loop
  runs over the dictionary's values in order.
\<close>

fun skill_choices_loop ::
  "(string \<times> int) set \<Rightarrow> TalentTreeNode \<Rightarrow> (nat \<times> ChoiceNodeTalent) list
     \<Rightarrow> int list \<Rightarrow> (int \<Rightarrow> int) \<Rightarrow> error + (int list \<times> (int \<Rightarrow> int))" where
  "skill_choices_loop except_for node [] pts spent = Inr (pts, spent)"
| "skill_choices_loop except_for node ((i, choice) # rest) pts spent =
     (if (node_id node, int i) \<in> except_for
      then skill_choices_loop except_for node rest pts spent
      else if i \<ge> length pts then Inl IndexError
      else
        (let pts' = pts[i := max_points choice]
         in skill_choices_loop except_for node rest pts'
              (spent(node_gate_id node := spent (node_gate_id node) + pts' ! i))))"

fun skill_selections_loop ::
  "(string \<times> int) set \<Rightarrow> (string \<times> PlayerTalentNodeSelection) list \<Rightarrow> (int \<Rightarrow> int)
     \<Rightarrow> error + ((string \<times> PlayerTalentNodeSelection) list \<times> (int \<Rightarrow> int))" where
  "skill_selections_loop except_for [] spent = Inr ([], spent)"
| "skill_selections_loop except_for ((nid, selection) # rest) spent =
     (case skill_choices_loop except_for (node_reference selection)
             (enumerate 0 (choices (node_reference selection)))
             (points_spent_by_choice_index selection) spent of
        Inl e \<Rightarrow> Inl e
      | Inr (pts', spent') \<Rightarrow>
          (case skill_selections_loop except_for rest spent' of
             Inl e \<Rightarrow> Inl e
           | Inr (rest', spent'') \<Rightarrow>
               Inr ((nid, selection\<lparr>points_spent_by_choice_index := pts'\<rparr>) # rest', spent'')))"

definition skill_all_nodes ::
  "PlayerTalentTree \<Rightarrow> (string \<times> int) set \<Rightarrow> error + PlayerTalentTree" where
  "skill_all_nodes t except_for =
     (case skill_selections_loop except_for (selection_by_node_id t) (spent_points_by_gate t) of
        Inl e \<Rightarrow> Inl e
      | Inr (sels, spent) \<Rightarrow>
          Inr (t\<lparr>selection_by_node_id := sels, spent_points_by_gate := spent\<rparr>))"

text \<open>
  \<open>decrement_node\<close>: the selection is changed in place, so the dictionary holds the
  changed selection under the same key.
\<close>

definition decrement_node :: "PlayerTalentTree \<Rightarrow> string \<Rightarrow> int \<Rightarrow> error + PlayerTalentTree" where
  "decrement_node t nid choice_index =
     (case map_of (selection_by_node_id t) nid of
        None \<Rightarrow> Inl KeyError
      | Some node_selection \<Rightarrow>
          (case remove_point_from_choice node_selection choice_index of
             Inl e \<Rightarrow> Inl e
           | Inr node_selection' \<Rightarrow>
               (let g = node_gate_id (node_reference node_selection')
                in Inr (t\<lparr>selection_by_node_id :=
                             AList.update nid node_selection' (selection_by_node_id t),
                           spent_points_by_gate :=
                             (spent_points_by_gate t)(g := spent_points_by_gate t g - 1)\<rparr>))))"

definition get_total_points_spent :: "PlayerTalentTree \<Rightarrow> int" where
  "get_total_points_spent t =
     sum_list (map (\<lambda>(nid, selection). sum_list (points_spent_by_choice_index selection))
                (selection_by_node_id t))"

definition get_total_points_available :: "PlayerTalentTree \<Rightarrow> int" where
  "get_total_points_available t = max_points_available t"

definition get_node_ids_with_violated_single_choice :: "PlayerTalentTree \<Rightarrow> string list" where
  "get_node_ids_with_violated_single_choice t =
     map fst (filter (\<lambda>(nid, selection). violates_single_choice_rule selection)
                (selection_by_node_id t))"

section \<open>The legality check\<close>

text \<open>
  \<open>can_node_be_decremented\<close>. The body of its \<open>try\<close> is
  \<open>can_node_be_decremented_body\<close>; the three loops of the body are the three
  functions before it. \<open>DecrementNotPossible\<close> is the exception that the
  \<open>except\<close> clause turns into \<open>False\<close>; every other error leaves the function.

  The loop over the parents of a child computes \<open>has_valid_parent\<close>.
\<close>

fun has_valid_parent :: "PlayerTalentTree \<Rightarrow> string \<Rightarrow> string list \<Rightarrow> error + bool" where
  "has_valid_parent t nid [] = Inr False"
| "has_valid_parent t nid (parent_id # rest) =
     (if parent_id = nid then has_valid_parent t nid rest
      else
        (case map_of (selection_by_node_id t) parent_id of
           None \<Rightarrow> Inl KeyError
         | Some parent_selection \<Rightarrow>
             if has_fully_skilled_choice parent_selection then Inr True
             else has_valid_parent t nid rest))"

fun check_child_nodes :: "PlayerTalentTree \<Rightarrow> string \<Rightarrow> bool \<Rightarrow> string list \<Rightarrow> error + unit" where
  "check_child_nodes t nid is_single_choice_rule_violated [] = Inr ()"
| "check_child_nodes t nid is_single_choice_rule_violated (child_id # rest) =
     (case map_of (selection_by_node_id t) child_id of
        None \<Rightarrow> Inl KeyError
      | Some child_node_selection \<Rightarrow>
          if holds_talent_points child_node_selection then
            (case has_valid_parent t nid (parent_nodes (node_reference child_node_selection)) of
               Inl e \<Rightarrow> Inl e
             | Inr valid \<Rightarrow>
                 if \<not> (valid \<or> is_single_choice_rule_violated) then Inl DecrementNotPossible
                 else check_child_nodes t nid is_single_choice_rule_violated rest)
          else check_child_nodes t nid is_single_choice_rule_violated rest)"

text \<open>The scan of the gates, in ascending order of gate id, with the running total.\<close>

fun check_gates :: "int \<Rightarrow> (int \<Rightarrow> int) \<Rightarrow> int \<Rightarrow> Gate list \<Rightarrow> error + unit" where
  "check_gates node_gate spent running_total_spent [] = Inr ()"
| "check_gates node_gate spent running_total_spent (gate # rest) =
     (let points_needed_below = points_required_below gate;
          in_gate = spent (gate_id gate)
      in if gate_id gate > node_gate \<and> points_needed_below \<ge> running_total_spent
         then Inl DecrementNotPossible
         else check_gates node_gate spent (running_total_spent + in_gate) rest)"

definition can_node_be_decremented_body :: "PlayerTalentTree \<Rightarrow> string \<Rightarrow> int \<Rightarrow> error + unit" where
  "can_node_be_decremented_body t nid choice_index =
     (case map_of (selection_by_node_id t) nid of
        None \<Rightarrow> Inl ValueError
      | Some node_selection \<Rightarrow>
          if \<not> holds_talent_points node_selection then Inl DecrementNotPossible
          else if choice_index \<notin> set (get_choice_indices_with_points node_selection)
          then Inl DecrementNotPossible
          else
            (case template_node_by_id (tree_template t) nid of
               None \<Rightarrow> Inl KeyError
             | Some template_node \<Rightarrow>
                 (case check_child_nodes t nid (violates_single_choice_rule node_selection)
                         (child_nodes template_node) of
                    Inl e \<Rightarrow> Inl e
                  | Inr _ \<Rightarrow>
                      check_gates (node_gate_id (node_reference node_selection))
                        (spent_points_by_gate t) 0
                        (sort_key gate_id (gates (gate_info (tree_template t)))))))"

definition can_node_be_decremented :: "PlayerTalentTree \<Rightarrow> string \<Rightarrow> int \<Rightarrow> error + bool" where
  "can_node_be_decremented t nid choice_index =
     (case can_node_be_decremented_body t nid choice_index of
        Inl DecrementNotPossible \<Rightarrow> Inr False
      | Inl e \<Rightarrow> Inl e
      | Inr _ \<Rightarrow> Inr True)"

section \<open>The candidate removals\<close>

text \<open>
  \<open>random.shuffle\<close> replaces a list by a permutation of it that the state of the
  random generator picks. The generator is the function \<open>rng\<close>: for the \<open>k\<close>-th
  shuffle of a run it gives the numbers that pick the permutation, and the functions that
  shuffle take the number of the next shuffle and return it advanced.
  \<open>shuffle_with\<close> inserts each element at the position its number names, so its
  result is a permutation whatever the numbers are, and each permutation is the result
  for some numbers.
\<close>

fun shuffle_with :: "nat list \<Rightarrow> 'a list \<Rightarrow> 'a list" where
  "shuffle_with rs [] = []"
| "shuffle_with rs (x # xs) =
     (let ys = shuffle_with (tl rs) xs;
          j = (case rs of [] \<Rightarrow> 0 | r # _ \<Rightarrow> r mod (length ys + 1))
      in take j ys @ x # drop j ys)"

text \<open>The inner loop of \<open>find_nodes_to_decrement\<close>, over the shuffled choice indices
  of one node.\<close>

fun check_choices :: "PlayerTalentTree \<Rightarrow> string \<Rightarrow> int list \<Rightarrow> error + (string \<times> int) list" where
  "check_choices t nid [] = Inr []"
| "check_choices t nid (choice_index # rest) =
     (case can_node_be_decremented t nid choice_index of
        Inl e \<Rightarrow> Inl e
      | Inr ok \<Rightarrow>
          (case check_choices t nid rest of
             Inl e \<Rightarrow> Inl e
           | Inr found \<Rightarrow> Inr ((if ok then [(nid, choice_index)] else []) @ found)))"

fun find_candidates_loop ::
  "(nat \<Rightarrow> nat list) \<Rightarrow> PlayerTalentTree \<Rightarrow> string list \<Rightarrow> nat
     \<Rightarrow> error + ((string \<times> int) list \<times> nat)" where
  "find_candidates_loop rng t [] k = Inr ([], k)"
| "find_candidates_loop rng t (nid # rest) k =
     (case map_of (selection_by_node_id t) nid of
        None \<Rightarrow> Inl KeyError
      | Some node_selection \<Rightarrow>
          (let choice_indices_copy =
                 shuffle_with (rng k) (get_choice_indices_with_points node_selection)
           in case check_choices t nid choice_indices_copy of
                Inl e \<Rightarrow> Inl e
              | Inr found \<Rightarrow>
                  (case find_candidates_loop rng t rest (Suc k) of
                     Inl e \<Rightarrow> Inl e
                   | Inr (others, k') \<Rightarrow> Inr (found @ others, k'))))"

definition find_nodes_to_decrement ::
  "(nat \<Rightarrow> nat list) \<Rightarrow> nat \<Rightarrow> PlayerTalentTree \<Rightarrow> error + ((string \<times> int) list \<times> nat)" where
  "find_nodes_to_decrement rng k t =
     (let violating_node_ids = get_node_ids_with_violated_single_choice t;
          shuffled = shuffle_with (rng k) (map fst (selection_by_node_id t));
          candidate_node_ids =
            violating_node_ids @ filter (\<lambda>nid. nid \<notin> set violating_node_ids) shuffled
      in find_candidates_loop rng t candidate_node_ids (Suc k))"

section \<open>The canonical talent string\<close>

text \<open>
  \<open>str(n)\<close> for an integer, \<open>sep.join(xs)\<close>, the string of one selection
  (\<open>PlayerTalentNodeSelection.to_talent_string\<close>) and the string of an allocation
  (\<open>PlayerTalentTree.to_talent_string\<close>). The key function of \<open>sorted\<close> reads
  \<open>_template_node_by_id\<close> and raises KeyError for an id that is not there;
  \<open>sorted\<close> is stable, as \<open>sort_key\<close> is, and strings compare by code point.
\<close>

definition digit_char :: "nat \<Rightarrow> char" where
  "digit_char n = ''0123456789'' ! n"

function str_nat :: "nat \<Rightarrow> string" where
  "str_nat n = (if n < 10 then [digit_char n] else str_nat (n div 10) @ [digit_char (n mod 10)])"
  by pat_completeness auto
termination
  by (relation "measure id") auto

declare str_nat.simps [simp del]

definition str_int :: "int \<Rightarrow> string" where
  "str_int i = (if i < 0 then CHR ''-'' # str_nat (nat (- i)) else str_nat (nat i))"

fun join :: "string \<Rightarrow> string list \<Rightarrow> string" where
  "join sep [] = []"
| "join sep [x] = x"
| "join sep (x # y # rest) = x @ sep @ join sep (y # rest)"

definition selection_to_talent_string :: "PlayerTalentNodeSelection \<Rightarrow> string" where
  "selection_to_talent_string s =
     join ''/''
       (map (\<lambda>(choice, points_spent). talent_name choice @ '':'' @ str_int points_spent)
          (filter (\<lambda>(choice, points_spent). points_spent > 0)
             (zip (choices (node_reference s)) (points_spent_by_choice_index s))))"

fun sort_keys_of ::
  "TalentTree \<Rightarrow> PlayerTalentNodeSelection list
     \<Rightarrow> error + (string \<times> PlayerTalentNodeSelection) list" where
  "sort_keys_of tmpl [] = Inr []"
| "sort_keys_of tmpl (n # rest) =
     (case template_node_by_id tmpl (node_id (node_reference n)) of
        None \<Rightarrow> Inl KeyError
      | Some template_node \<Rightarrow>
          (case sort_keys_of tmpl rest of
             Inl e \<Rightarrow> Inl e
           | Inr keyed \<Rightarrow> Inr ((node_sort_key template_node, n) # keyed)))"

definition to_talent_string :: "PlayerTalentTree \<Rightarrow> error + string" where
  "to_talent_string t =
     (case sort_keys_of (tree_template t) (map snd (selection_by_node_id t)) of
        Inl e \<Rightarrow> Inl e
      | Inr keyed \<Rightarrow>
          Inr (join ''/''
                 (filter (\<lambda>node_talent_string. node_talent_string \<noteq> [])
                    (map (\<lambda>(k, n). selection_to_talent_string n) (sort_key fst keyed)))))"

section \<open>The beam search (optimizer/algorithms/beam_search)\<close>

text \<open>
  A talent string provider is a fixed string or an allocation. The simulation runner,
  its input and its output are not part of the optimizer: the runner is a parameter, a
  function from the number of the call and the talents record it is given to its answer,
  \<open>None\<close> for a failed simulation; of the output only the field \<open>dps\<close> is
  read, a float that the search stores and compares and never computes with, here a
  real number.
\<close>

datatype TalentStringProvider = FixedTalentStringProvider string | TreeProvider PlayerTalentTree

fun provider_to_talent_string :: "TalentStringProvider \<Rightarrow> error + string" where
  "provider_to_talent_string (FixedTalentStringProvider talent_str) = Inr talent_str"
| "provider_to_talent_string (TreeProvider t) = to_talent_string t"

datatype Specialization = HAVOC | DEVOURER | VENGEANCE

record ClassTalentForest =
  spec :: Specialization
  spec_tree :: TalentTree

record Player =
  name :: string
  level :: int
  race :: string

definition get_available_spec_talent_points :: "Player \<Rightarrow> error + int" where
  "get_available_spec_talent_points player =
     (if level player = 80 then Inr 30
      else if level player = 90 then Inr 34
      else Inl ValueError)"

record BeamSearchConfig =
  beam_width :: int
  max_explorations_per_candidate :: int

definition default_config :: BeamSearchConfig where
  "default_config = \<lparr>beam_width = 10, max_explorations_per_candidate = 10\<rparr>"

record LockedTalentTrees =
  locked_class_tree :: "TalentStringProvider option"
  locked_spec_tree :: "TalentStringProvider option"
  locked_hero_tree :: "TalentStringProvider option"

record TalentBlockList =
  blocked_spec_talents :: "(string \<times> int) set"

record TalentsRecord =
  class_talents :: TalentStringProvider
  spec_talents :: TalentStringProvider
  hero_talents :: TalentStringProvider

record SimOutput =
  dps :: real

record BestTalentTreeResult =
  best_class_tree_result :: TalentStringProvider
  best_spec_tree_result :: TalentStringProvider
  best_hero_tree_result :: TalentStringProvider

text \<open>The result's field \<open>best_dps\<close> is \<open>result_best_dps\<close>; the name
  \<open>best_dps\<close> is the local variable of the search below.\<close>

record BeamSearchOptimizationResult =
  best_tree_result :: "BestTalentTreeResult option"
  result_best_dps :: real

text \<open>\<open>a or b\<close> where \<open>a\<close> is \<open>None\<close> or an object that is true.\<close>

definition or_else :: "'a option \<Rightarrow> 'a option \<Rightarrow> 'a option" where
  "or_else a b = (case a of Some x \<Rightarrow> Some x | None \<Rightarrow> b)"

definition make_talents_record ::
  "LockedTalentTrees \<Rightarrow> TalentStringProvider option \<Rightarrow> TalentStringProvider option
     \<Rightarrow> TalentStringProvider option \<Rightarrow> error + TalentsRecord" where
  "make_talents_record locked class_t spec_t hero_t =
     (case or_else spec_t (locked_spec_tree locked) of
        None \<Rightarrow> Inl ValueError
      | Some s \<Rightarrow>
          (case or_else class_t (locked_class_tree locked) of
             None \<Rightarrow> Inl ValueError
           | Some c \<Rightarrow>
               (case or_else hero_t (locked_hero_tree locked) of
                  None \<Rightarrow> Inl ValueError
                | Some h \<Rightarrow> Inr \<lparr>class_talents = c, spec_talents = s, hero_talents = h\<rparr>)))"

text \<open>\<open>xs[:k]\<close>: for a negative \<open>k\<close> all but the last \<open>-k\<close> elements.\<close>

definition py_slice_to :: "int \<Rightarrow> 'a list \<Rightarrow> 'a list" where
  "py_slice_to k xs = (if k \<ge> 0 then take (nat k) xs else take (length xs - nat (- k)) xs)"

text \<open>
  What a run is given and does not change: the simulation runner, the random generator,
  the configuration and the locked trees.
\<close>

record search_env =
  sim_runner :: "nat \<Rightarrow> TalentsRecord \<Rightarrow> SimOutput option"
  random_source :: "nat \<Rightarrow> nat list"
  search_config :: BeamSearchConfig
  locked_trees :: LockedTalentTrees

text \<open>
  The variables of \<open>beam_search_optimal_talents\<close>, with two counters of what the run
  did to the world: \<open>sim_calls\<close>, the calls of the simulation runner so far with
  their answers, and \<open>shuffle_count\<close>, the number of shuffles so far. An error
  leaves the search with the state it interrupted.
\<close>

record search_state =
  dps_by_talent_str :: "string \<Rightarrow> real option"
  beam :: "PlayerTalentTree list"
  best_dps :: real
  best_tree_so_far :: "PlayerTalentTree option"
  iteration :: int
  candidates :: "(PlayerTalentTree \<times> real) list"
  has_new_candidates :: bool
  sim_calls :: "(TalentsRecord \<times> SimOutput option) list"
  shuffle_count :: nat

definition run_sim ::
  "search_env \<Rightarrow> search_state \<Rightarrow> TalentsRecord \<Rightarrow> SimOutput option \<times> search_state" where
  "run_sim env st talents_record =
     (let out = sim_runner env (length (sim_calls st)) talents_record
      in (out, st\<lparr>sim_calls := sim_calls st @ [(talents_record, out)]\<rparr>))"

text \<open>
  The body of the loop over the removals chosen for one over-budget tree, and the loop.
\<close>

definition explore_one ::
  "search_env \<Rightarrow> PlayerTalentTree \<Rightarrow> string \<times> int \<Rightarrow> search_state
     \<Rightarrow> (error \<times> search_state) + search_state" where
  "explore_one env tree removal st =
     (case removal of (nid, choice_index) \<Rightarrow>
     (case copy tree of
        Inl e \<Rightarrow> Inl (e, st)
      | Inr copied \<Rightarrow>
     (case decrement_node copied nid choice_index of
        Inl e \<Rightarrow> Inl (e, st)
      | Inr new_tree \<Rightarrow>
     (case to_talent_string new_tree of
        Inl e \<Rightarrow> Inl (e, st)
      | Inr spec_talent_str \<Rightarrow>
     (case dps_by_talent_str st spec_talent_str of
        Some known \<Rightarrow> Inr st
      | None \<Rightarrow>
     (case make_talents_record (locked_trees env) None (Some (TreeProvider new_tree)) None of
        Inl e \<Rightarrow> Inl (e, st)
      | Inr talents_record \<Rightarrow>
     (case run_sim env st talents_record of
        (None, st1) \<Rightarrow> Inr st1
      | (Some sim_result, st1) \<Rightarrow>
          (let better = (dps sim_result > best_dps st1 \<and>
                         get_total_points_spent new_tree \<le> get_total_points_available new_tree)
           in Inr (st1\<lparr>dps_by_talent_str := (dps_by_talent_str st1)(spec_talent_str \<mapsto> dps sim_result),
                     candidates := candidates st1 @ [(new_tree, dps sim_result)],
                     has_new_candidates := True,
                     best_dps := (if better then dps sim_result else best_dps st1),
                     best_tree_so_far :=
                       (if better then Some new_tree else best_tree_so_far st1)\<rparr>)))))))))"

fun explore ::
  "search_env \<Rightarrow> PlayerTalentTree \<Rightarrow> (string \<times> int) list \<Rightarrow> search_state
     \<Rightarrow> (error \<times> search_state) + search_state" where
  "explore env tree [] st = Inr st"
| "explore env tree (removal # rest) st =
     (case explore_one env tree removal st of
        Inl failure \<Rightarrow> Inl failure
      | Inr st' \<Rightarrow> explore env tree rest st')"

text \<open>The body of the loop over the trees of the beam, and the loop.\<close>

definition process_tree ::
  "search_env \<Rightarrow> PlayerTalentTree \<Rightarrow> search_state \<Rightarrow> (error \<times> search_state) + search_state" where
  "process_tree env tree st =
     (if get_total_points_spent tree \<le> get_total_points_available tree then
        (case to_talent_string tree of
           Inl e \<Rightarrow> Inl (e, st)
         | Inr talent_str \<Rightarrow>
             (case dps_by_talent_str st talent_str of
                None \<Rightarrow> Inl (KeyError, st)
              | Some tree_dps \<Rightarrow>
                  Inr (st\<lparr>candidates := candidates st @ [(tree, tree_dps)],
                        best_tree_so_far :=
                          (if tree_dps > best_dps st then Some tree else best_tree_so_far st),
                        best_dps := (if tree_dps > best_dps st then tree_dps else best_dps st)\<rparr>)))
      else
        (case find_nodes_to_decrement (random_source env) (shuffle_count st) tree of
           Inl e \<Rightarrow> Inl (e, st)
         | Inr (decrementable_nodes, k) \<Rightarrow>
             (let shuffled = shuffle_with (random_source env k) decrementable_nodes;
                  st1 = st\<lparr>shuffle_count := Suc k\<rparr>
              in explore env tree
                   (py_slice_to (max_explorations_per_candidate (search_config env)) shuffled)
                   st1)))"

fun process_beam ::
  "search_env \<Rightarrow> PlayerTalentTree list \<Rightarrow> search_state
     \<Rightarrow> (error \<times> search_state) + search_state" where
  "process_beam env [] st = Inr st"
| "process_beam env (tree # rest) st =
     (case process_tree env tree st of
        Inl failure \<Rightarrow> Inl failure
      | Inr st' \<Rightarrow> process_beam env rest st')"

text \<open>
  One pass of the \<open>while\<close> loop: it counts the pass and empties the candidates
  (\<open>pass_start\<close>), runs the loop over the beam, and then it has failed, or it
  leaves the loop through one of the two \<open>break\<close> statements, or it goes on with
  the next beam.
  \<open>candidates.sort(key=..., reverse=True)\<close> keeps the order of equal keys.
\<close>

datatype pass_result = Failed error search_state | Break search_state | Next search_state

definition pass_start :: "search_state \<Rightarrow> search_state" where
  "pass_start st =
     st\<lparr>iteration := iteration st + 1, candidates := [], has_new_candidates := False\<rparr>"

definition beam_iteration :: "search_env \<Rightarrow> search_state \<Rightarrow> pass_result" where
  "beam_iteration env st =
     (case process_beam env (beam st) (pass_start st) of
        Inl (e, st') \<Rightarrow> Failed e st'
      | Inr st1 \<Rightarrow>
          if \<not> has_new_candidates st1 then Break st1
          else
            (let sorted_candidates = sort_key (\<lambda>c. - snd c) (candidates st1);
                 new_beam = map fst (py_slice_to (beam_width (search_config env)) sorted_candidates);
                 st2 = st1\<lparr>candidates := sorted_candidates, beam := new_beam\<rparr>
             in if new_beam = [] then Break st2 else Next st2))"

partial_function (option) beam_loop ::
  "search_env \<Rightarrow> search_state \<Rightarrow> ((error \<times> search_state) + search_state) option" where
  "beam_loop env st =
     (if beam st = [] then Some (Inr st)
      else
        (case beam_iteration env st of
           Failed e st' \<Rightarrow> Some (Inl (e, st'))
         | Break st' \<Rightarrow> Some (Inr st')
         | Next st' \<Rightarrow> beam_loop env st'))"

text \<open>
  The part of \<open>beam_search_optimal_talents\<close> before the loop: the seed allocation
  (every choice filled except the blocked ones, with the budget of the player's level) and
  its simulation. It fails, or it gives the state in which the loop starts.
\<close>

definition initial_state :: search_state where
  "initial_state =
     \<lparr>dps_by_talent_str = Map.empty, beam = [], best_dps = 0, best_tree_so_far = None,
      iteration = 0, candidates = [], has_new_candidates = False, sim_calls = [],
      shuffle_count = 0\<rparr>"

definition make_env ::
  "(nat \<Rightarrow> TalentsRecord \<Rightarrow> SimOutput option) \<Rightarrow> (nat \<Rightarrow> nat list) \<Rightarrow> BeamSearchConfig option
     \<Rightarrow> LockedTalentTrees option \<Rightarrow> search_env" where
  "make_env runner rnd cfg locked =
     \<lparr>sim_runner = runner, random_source = rnd,
      search_config = (case cfg of Some c \<Rightarrow> c | None \<Rightarrow> default_config),
      locked_trees =
        (case locked of
           Some l \<Rightarrow> l
         | None \<Rightarrow> \<lparr>locked_class_tree = None, locked_spec_tree = None, locked_hero_tree = None\<rparr>)\<rparr>"

definition seed_allocation ::
  "ClassTalentForest \<Rightarrow> Player \<Rightarrow> TalentBlockList option \<Rightarrow> error + PlayerTalentTree" where
  "seed_allocation forest_template player talent_block_list =
     (let except_for =
            (case talent_block_list of Some b \<Rightarrow> blocked_spec_talents b | None \<Rightarrow> {})
      in
     (case get_available_spec_talent_points player of
        Inl e \<Rightarrow> Inl e
      | Inr points \<Rightarrow>
     (case PlayerTalentTree_init (spec_tree forest_template) points of
        Inl e \<Rightarrow> Inl e
      | Inr fresh \<Rightarrow> skill_all_nodes fresh except_for)))"

definition seed_search ::
  "search_env \<Rightarrow> ClassTalentForest \<Rightarrow> Player \<Rightarrow> TalentBlockList option
     \<Rightarrow> (error \<times> search_state) + search_state" where
  "seed_search env forest_template player talent_block_list =
     (case seed_allocation forest_template player talent_block_list of
        Inl e \<Rightarrow> Inl (e, initial_state)
      | Inr seed_tree \<Rightarrow>
     (case make_talents_record (locked_trees env) None (Some (TreeProvider seed_tree)) None of
        Inl e \<Rightarrow> Inl (e, initial_state)
      | Inr talents_record \<Rightarrow>
     (case run_sim env initial_state talents_record of
        (None, st) \<Rightarrow> Inl (RuntimeError, st)
      | (Some base_output, st) \<Rightarrow>
          (case to_talent_string seed_tree of
             Inl e \<Rightarrow> Inl (e, st)
           | Inr talent_str \<Rightarrow>
               Inr (st\<lparr>dps_by_talent_str := [talent_str \<mapsto> dps base_output],
                       beam := [seed_tree]\<rparr>)))))"

definition search_result :: "search_env \<Rightarrow> search_state \<Rightarrow> BeamSearchOptimizationResult" where
  "search_result env st =
     \<lparr>best_tree_result =
        (case (locked_class_tree (locked_trees env), best_tree_so_far st,
               locked_hero_tree (locked_trees env)) of
           (Some c, Some best, Some h) \<Rightarrow>
             Some \<lparr>best_class_tree_result = c, best_spec_tree_result = TreeProvider best,
                   best_hero_tree_result = h\<rparr>
         | _ \<Rightarrow> None),
      result_best_dps = best_dps st\<rparr>"

text \<open>
  \<open>beam_search_optimal_talents\<close>. Its value is \<open>None\<close> where the loop does not
  end; otherwise the error it raises or the result it returns, each with the last state
  of the search.
\<close>

definition beam_search_optimal_talents ::
  "(nat \<Rightarrow> TalentsRecord \<Rightarrow> SimOutput option) \<Rightarrow> (nat \<Rightarrow> nat list) \<Rightarrow> BeamSearchConfig option
     \<Rightarrow> ClassTalentForest \<Rightarrow> Player \<Rightarrow> LockedTalentTrees option \<Rightarrow> TalentBlockList option
     \<Rightarrow> ((error \<times> search_state) + (BeamSearchOptimizationResult \<times> search_state)) option" where
  "beam_search_optimal_talents runner rnd cfg forest_template player locked talent_block_list =
     (let env = make_env runner rnd cfg locked
      in case seed_search env forest_template player talent_block_list of
           Inl failure \<Rightarrow> Some (Inl failure)
         | Inr st0 \<Rightarrow>
             (case beam_loop env st0 of
                None \<Rightarrow> None
              | Some (Inl failure) \<Rightarrow> Some (Inl failure)
              | Some (Inr final) \<Rightarrow> Some (Inr (search_result env final, final))))"

section \<open>Predicates the properties are stated with\<close>

text \<open>
  The selection that \<open>_get_empty_selections_dict\<close> makes for a node, and the
  dictionary it builds.
\<close>

definition empty_selection :: "TalentTreeNode \<Rightarrow> PlayerTalentNodeSelection" where
  "empty_selection node =
     \<lparr>node_reference = node, points_spent_by_choice_index = map (\<lambda>_. 0) (choices node)\<rparr>"

definition empty_dict :: "TalentTree \<Rightarrow> (string \<times> PlayerTalentNodeSelection) list" where
  "empty_dict tmpl = fold (\<lambda>n. AList.update (node_id n) (empty_selection n)) (nodes tmpl) []"

text \<open>
  The states a \<open>PlayerTalentTree\<close> object can be in: its dictionary has the keys of
  the dictionary the constructor built from the template, in that order, every selection
  still refers to the node the constructor gave it, and (the check of the selection's
  constructor) has one points entry for each choice.
\<close>

definition allocation_ok :: "PlayerTalentTree \<Rightarrow> bool" where
  "allocation_ok t =
     (get_empty_selections_dict (tree_template t) =
        Inr (map (\<lambda>(nid, s). (nid, empty_selection (node_reference s))) (selection_by_node_id t)) \<and>
      list_all (\<lambda>(nid, s). length (points_spent_by_choice_index s) = length (choices (node_reference s)))
        (selection_by_node_id t))"

text \<open>The points spent across the choices of all nodes of one gate, and the invariant
  that the stored total of every gate is that sum.\<close>

definition gate_sum :: "(string \<times> PlayerTalentNodeSelection) list \<Rightarrow> int \<Rightarrow> int" where
  "gate_sum al g =
     sum_list (map (\<lambda>(nid, s). sum_list (points_spent_by_choice_index s))
       (filter (\<lambda>(nid, s). node_gate_id (node_reference s) = g) al))"

definition points_in_gate :: "PlayerTalentTree \<Rightarrow> int \<Rightarrow> int" where
  "points_in_gate t g = gate_sum (selection_by_node_id t) g"

definition gate_totals_consistent :: "PlayerTalentTree \<Rightarrow> bool" where
  "gate_totals_consistent t = (\<forall>g. spent_points_by_gate t g = points_in_gate t g)"

text \<open>Every choice that \<open>skill_all_nodes\<close> would fill (it is not in
  \<open>except_for\<close>) holds no point.\<close>

definition fillable_choices_empty :: "PlayerTalentTree \<Rightarrow> (string \<times> int) set \<Rightarrow> bool" where
  "fillable_choices_empty t except_for =
     list_all (\<lambda>(nid, s).
        list_all (\<lambda>(i, p). (node_id (node_reference s), int i) \<in> except_for \<or> p = 0)
          (enumerate 0 (points_spent_by_choice_index s)))
       (selection_by_node_id t)"

text \<open>Choice \<open>c\<close> of node \<open>nid\<close> exists and holds at least one point.\<close>

definition choice_holds_point :: "PlayerTalentTree \<Rightarrow> string \<Rightarrow> int \<Rightarrow> bool" where
  "choice_holds_point t nid c =
     (case map_of (selection_by_node_id t) nid of
        None \<Rightarrow> False
      | Some s \<Rightarrow> 0 \<le> c \<and> nat c < length (points_spent_by_choice_index s) \<and>
                  points_spent_by_choice_index s ! nat c \<ge> 1)"

text \<open>
  What the converter guarantees of a template. References resolve: the ids in the
  children and parents lists of every node are ids of nodes of the template. Gates are
  well formed: no two gates share an id, and the gate id of every node is the id of a
  gate.
\<close>

definition template_refs_ok :: "TalentTree \<Rightarrow> bool" where
  "template_refs_ok tmpl =
     list_all (\<lambda>n. list_all (\<lambda>r. r \<in> set (map node_id (nodes tmpl)))
                      (child_nodes n @ parent_nodes n))
       (nodes tmpl)"

definition gates_ok :: "TalentTree \<Rightarrow> bool" where
  "gates_ok tmpl =
     (distinct (map gate_id (gates (gate_info tmpl))) \<and>
      list_all (\<lambda>n. node_gate_id n \<in> set (map gate_id (gates (gate_info tmpl)))) (nodes tmpl))"

text \<open>The points committed to the nodes whose gate id is less than \<open>h\<close>.\<close>

definition points_below :: "PlayerTalentTree \<Rightarrow> int \<Rightarrow> int" where
  "points_below t h =
     sum_list (map (\<lambda>(nid, s). sum_list (points_spent_by_choice_index s))
       (filter (\<lambda>(nid, s). node_gate_id (node_reference s) < h) (selection_by_node_id t)))"

text \<open>
  Some parent of the child other than node \<open>nid\<close> has a choice filled to its
  maximum; and a child of \<open>nid\<close> that holds points and has no such parent.
\<close>

definition other_parent_fully_skilled ::
  "PlayerTalentTree \<Rightarrow> string \<Rightarrow> PlayerTalentNodeSelection \<Rightarrow> bool" where
  "other_parent_fully_skilled t nid child_selection =
     list_ex (\<lambda>p. p \<noteq> nid \<and>
                (case map_of (selection_by_node_id t) p of
                   None \<Rightarrow> False
                 | Some parent_selection \<Rightarrow> has_fully_skilled_choice parent_selection))
       (parent_nodes (node_reference child_selection))"

definition stranded_child :: "PlayerTalentTree \<Rightarrow> string \<Rightarrow> string \<Rightarrow> bool" where
  "stranded_child t nid child_id =
     (case map_of (selection_by_node_id t) child_id of
        None \<Rightarrow> False
      | Some child_selection \<Rightarrow>
          holds_talent_points child_selection \<and> \<not> other_parent_fully_skilled t nid child_selection)"

text \<open>The children of a node, and the parents of each child other than the node, are
  keys of the allocation's dictionary.\<close>

definition child_refs_known :: "PlayerTalentTree \<Rightarrow> string \<Rightarrow> string list \<Rightarrow> bool" where
  "child_refs_known t nid cs =
     (\<forall>c \<in> set cs. \<exists>child_selection. map_of (selection_by_node_id t) c = Some child_selection \<and>
        (\<forall>p \<in> set (parent_nodes (node_reference child_selection)).
            p \<noteq> nid \<longrightarrow> map_of (selection_by_node_id t) p \<noteq> None))"

text \<open>The removals that the legality check accepts.\<close>

definition candidates_of :: "PlayerTalentTree \<Rightarrow> (string \<times> int) set" where
  "candidates_of t = {(nid, c). can_node_be_decremented t nid c = Inr True}"

text \<open>
  The last state of a part of the search, whether it failed or not; the canonical string
  that a call of the simulation runner was made for; and the points by which an
  allocation exceeds its budget.
\<close>

definition final_state :: "(error \<times> search_state) + search_state \<Rightarrow> search_state" where
  "final_state r = (case r of Inl (e, st) \<Rightarrow> st | Inr st \<Rightarrow> st)"

definition outcome_state ::
  "(error \<times> search_state) + (BeamSearchOptimizationResult \<times> search_state) \<Rightarrow> search_state" where
  "outcome_state r = (case r of Inl (e, st) \<Rightarrow> st | Inr (res, st) \<Rightarrow> st)"

definition pass_state :: "pass_result \<Rightarrow> search_state" where
  "pass_state r = (case r of Failed e st \<Rightarrow> st | Break st \<Rightarrow> st | Next st \<Rightarrow> st)"

definition call_string :: "TalentsRecord \<times> SimOutput option \<Rightarrow> error + string" where
  "call_string c = provider_to_talent_string (spec_talents (fst c))"

definition excess :: "PlayerTalentTree \<Rightarrow> int" where
  "excess t = max 0 (get_total_points_spent t - get_total_points_available t)"

text \<open>No call is made for the string of an earlier call that succeeded.\<close>

fun no_resubmission :: "(TalentsRecord \<times> SimOutput option) list \<Rightarrow> bool" where
  "no_resubmission [] = True"
| "no_resubmission (c # cs) =
     ((snd c \<noteq> None \<longrightarrow> call_string c \<notin> set (map call_string cs)) \<and> no_resubmission cs)"

text \<open>The keys of the memo table are the strings of the calls that succeeded.\<close>

definition memo_matches_calls :: "search_state \<Rightarrow> bool" where
  "memo_matches_calls st =
     (\<forall>s. dps_by_talent_str st s \<noteq> None \<longleftrightarrow>
          (\<exists>c \<in> set (sim_calls st). snd c \<noteq> None \<and> call_string c = Inr s))"

text \<open>The canonical string of the allocation is a key of the memo table.\<close>

definition in_memo :: "search_state \<Rightarrow> PlayerTalentTree \<Rightarrow> bool" where
  "in_memo st t = (\<exists>s. to_talent_string t = Inr s \<and> dps_by_talent_str st s \<noteq> None)"

text \<open>The states in which the \<open>while\<close> loop starts a pass, from a first state.\<close>

inductive loop_state :: "search_env \<Rightarrow> search_state \<Rightarrow> search_state \<Rightarrow> bool"
  for env :: search_env and st0 :: search_state where
  first: "loop_state env st0 st0"
| pass: "loop_state env st0 st \<Longrightarrow> beam st \<noteq> [] \<Longrightarrow> beam_iteration env st = Next st'
           \<Longrightarrow> loop_state env st0 st'"

text \<open>
  The conditions of the dependency rule in the words of the specification, without the
  methods of the selection: a selection holds points when some choice has a number of
  points other than zero; it has a fully skilled choice when the points of some choice
  equal the maximum of that choice; it is in the violating state when two different
  choices hold a point each. A child has an alternative parent when a parent of it other
  than the node has a fully skilled choice, and a child depends on the node when it holds
  points and has no alternative parent.
\<close>

definition holds_some_points :: "PlayerTalentNodeSelection \<Rightarrow> bool" where
  "holds_some_points s =
     (\<exists>i < length (points_spent_by_choice_index s). points_spent_by_choice_index s ! i \<noteq> 0)"

definition some_choice_at_maximum :: "PlayerTalentNodeSelection \<Rightarrow> bool" where
  "some_choice_at_maximum s =
     (\<exists>i. i < length (choices (node_reference s)) \<and> i < length (points_spent_by_choice_index s) \<and>
          points_spent_by_choice_index s ! i = max_points (choices (node_reference s) ! i))"

definition points_in_several_choices :: "PlayerTalentNodeSelection \<Rightarrow> bool" where
  "points_in_several_choices s =
     (\<exists>i j. i < j \<and> j < length (points_spent_by_choice_index s) \<and>
          points_spent_by_choice_index s ! i > 0 \<and> points_spent_by_choice_index s ! j > 0)"

definition alternative_parent ::
  "PlayerTalentTree \<Rightarrow> string \<Rightarrow> PlayerTalentNodeSelection \<Rightarrow> bool" where
  "alternative_parent t nid child_selection =
     (\<exists>p \<in> set (parent_nodes (node_reference child_selection)).
         p \<noteq> nid \<and>
         (\<exists>parent_selection. map_of (selection_by_node_id t) p = Some parent_selection \<and>
            some_choice_at_maximum parent_selection))"

definition dependent_child :: "PlayerTalentTree \<Rightarrow> string \<Rightarrow> string \<Rightarrow> bool" where
  "dependent_child t nid child_id =
     (\<exists>child_selection. map_of (selection_by_node_id t) child_id = Some child_selection \<and>
        holds_some_points child_selection \<and> \<not> alternative_parent t nid child_selection)"

text \<open>
  A later state of the same pass: the same pass number and beam, and a memo table with
  at least the keys of the earlier state.
\<close>

definition extends :: "search_state \<Rightarrow> search_state \<Rightarrow> bool" where
  "extends st st' =
     (iteration st' = iteration st \<and> beam st' = beam st \<and>
      (\<forall>s. dps_by_talent_str st s \<noteq> None \<longrightarrow> dps_by_talent_str st' s \<noteq> None))"

text \<open>
  What holds during a pass and when the loop starts a pass, for a bound \<open>M\<close> on
  the number of passes that go on: the memo table and the calls agree, every allocation
  that is kept is an allocation with its string in the memo table, and it is within
  budget or exceeds its budget by no more than the passes that are left.
\<close>

definition pass_inv :: "int \<Rightarrow> search_state \<Rightarrow> bool" where
  "pass_inv M st =
     (memo_matches_calls st \<and> no_resubmission (sim_calls st) \<and>
      (\<forall>(t, d) \<in> set (candidates st).
          allocation_ok t \<and> in_memo st t \<and> (excess t = 0 \<or> excess t + iteration st \<le> M)) \<and>
      (has_new_candidates st \<longrightarrow> iteration st \<le> M))"

definition loop_inv :: "int \<Rightarrow> search_state \<Rightarrow> bool" where
  "loop_inv M st =
     (memo_matches_calls st \<and> no_resubmission (sim_calls st) \<and>
      0 \<le> iteration st \<and> iteration st \<le> M \<and>
      (\<forall>t \<in> set (beam st). allocation_ok t \<and> in_memo st t \<and> excess t + iteration st \<le> M))"

definition trace_post :: "int \<Rightarrow> search_state \<Rightarrow> bool" where
  "trace_post M st =
     (iteration st \<le> M + 1 \<and> memo_matches_calls st \<and> no_resubmission (sim_calls st))"

text \<open>
  The bound on the number of passes: one more than the points by which the seed
  allocation exceeds its budget, and one when it does not exceed it; no pass when there
  is no seed allocation.
\<close>

definition seed_bound :: "ClassTalentForest \<Rightarrow> Player \<Rightarrow> TalentBlockList option \<Rightarrow> int" where
  "seed_bound forest player block =
     (case seed_allocation forest player block of
        Inl e \<Rightarrow> 0
      | Inr seed \<Rightarrow>
          max 0 (get_total_points_spent seed - get_total_points_available seed) + 1)"

text \<open>
  What the search relies on so that nothing but the simulation runner can fail: the locked
  class tree and the locked hero tree are there, so that the talents record of a candidate
  can be made; and a kept allocation is well formed over a template whose child and parent
  references resolve.
\<close>

definition env_ok :: "search_env \<Rightarrow> bool" where
  "env_ok env =
     (locked_class_tree (locked_trees env) \<noteq> None \<and> locked_hero_tree (locked_trees env) \<noteq> None)"

definition resolved :: "PlayerTalentTree \<Rightarrow> bool" where
  "resolved t = (allocation_ok t \<and> template_refs_ok (tree_template t))"

section \<open>A small template and allocations over it\<close>

text \<open>
  Two gates and two nodes: node \<open>a\<close> in gate 0 with two choices, and its child
  \<open>b\<close> in gate 1, which needs two points below it.
\<close>

definition example_node_a :: TalentTreeNode where
  "example_node_a =
     \<lparr>node_id = ''a'',
      choices = [\<lparr>talent_name = ''alpha'', max_points = 2\<rparr>,
                 \<lparr>talent_name = ''aleph'', max_points = 1\<rparr>],
      node_gate_id = 0, parent_nodes = [], child_nodes = [''b''],
      node_sort_key = ''1''\<rparr>"

definition example_node_b :: TalentTreeNode where
  "example_node_b =
     \<lparr>node_id = ''b'',
      choices = [\<lparr>talent_name = ''beta'', max_points = 1\<rparr>],
      node_gate_id = 1, parent_nodes = [''a''], child_nodes = [],
      node_sort_key = ''101''\<rparr>"

definition example_template :: TalentTree where
  "example_template =
     \<lparr>gate_info = \<lparr>gates = [\<lparr>gate_id = 0, points_required_below = 0\<rparr>,
                            \<lparr>gate_id = 1, points_required_below = 2\<rparr>]\<rparr>,
      nodes = [example_node_a, example_node_b]\<rparr>"

definition example_allocation :: "int list \<Rightarrow> int list \<Rightarrow> (int \<Rightarrow> int) \<Rightarrow> PlayerTalentTree" where
  "example_allocation pa pb spent =
     \<lparr>tree_template = example_template, max_points_available = 30,
      selection_by_node_id =
        [(''a'', \<lparr>node_reference = example_node_a, points_spent_by_choice_index = pa\<rparr>),
         (''b'', \<lparr>node_reference = example_node_b, points_spent_by_choice_index = pb\<rparr>)],
      spent_points_by_gate = spent\<rparr>"

definition example_fresh :: PlayerTalentTree where
  "example_fresh = example_allocation [0, 0] [0] (\<lambda>_. 0)"

definition example_seed :: PlayerTalentTree where
  "example_seed = example_allocation [2, 1] [1] ((\<lambda>_. 0)(0 := 3, 1 := 1))"

text \<open>Node \<open>a\<close> holds two points in one choice: exactly the two points that
  gate 1 requires.\<close>

definition example_at_threshold :: PlayerTalentTree where
  "example_at_threshold = example_allocation [2, 0] [1] ((\<lambda>_. 0)(0 := 2, 1 := 1))"

text \<open>
  A template in which the child \<open>c\<close> has the two parents \<open>p\<close> and
  \<open>q\<close>, with one gate that requires nothing, and the allocations over it.
\<close>

definition fork_node_p :: TalentTreeNode where
  "fork_node_p =
     \<lparr>node_id = ''p'',
      choices = [\<lparr>talent_name = ''pa'', max_points = 1\<rparr>, \<lparr>talent_name = ''pb'', max_points = 1\<rparr>],
      node_gate_id = 0, parent_nodes = [], child_nodes = [''c''], node_sort_key = ''1''\<rparr>"

definition fork_node_q :: TalentTreeNode where
  "fork_node_q =
     \<lparr>node_id = ''q'', choices = [\<lparr>talent_name = ''qa'', max_points = 2\<rparr>],
      node_gate_id = 0, parent_nodes = [], child_nodes = [''c''], node_sort_key = ''2''\<rparr>"

definition fork_node_c :: TalentTreeNode where
  "fork_node_c =
     \<lparr>node_id = ''c'', choices = [\<lparr>talent_name = ''ca'', max_points = 1\<rparr>],
      node_gate_id = 0, parent_nodes = [''p'', ''q''], child_nodes = [], node_sort_key = ''101''\<rparr>"

definition fork_template :: TalentTree where
  "fork_template =
     \<lparr>gate_info = \<lparr>gates = [\<lparr>gate_id = 0, points_required_below = 0\<rparr>]\<rparr>,
      nodes = [fork_node_p, fork_node_q, fork_node_c]\<rparr>"

definition fork_allocation :: "int list \<Rightarrow> int list \<Rightarrow> int list \<Rightarrow> PlayerTalentTree" where
  "fork_allocation pp pq pc =
     \<lparr>tree_template = fork_template, max_points_available = 30,
      selection_by_node_id =
        [(''p'', \<lparr>node_reference = fork_node_p, points_spent_by_choice_index = pp\<rparr>),
         (''q'', \<lparr>node_reference = fork_node_q, points_spent_by_choice_index = pq\<rparr>),
         (''c'', \<lparr>node_reference = fork_node_c, points_spent_by_choice_index = pc\<rparr>)],
      spent_points_by_gate = (\<lambda>_. 0)(0 := sum_list pp + sum_list pq + sum_list pc)\<rparr>"

section \<open>A template that exceeds the budget, and two runs of the search\<close>

text \<open>
  Two nodes without parents and children, of one choice with sixteen points each, in one
  gate that requires nothing: filled, the allocation holds 32 points, two more than the
  budget of a player of level 80.
\<close>

definition pair_node_x :: TalentTreeNode where
  "pair_node_x =
     \<lparr>node_id = ''x'', choices = [\<lparr>talent_name = ''x'', max_points = 16\<rparr>],
      node_gate_id = 0, parent_nodes = [], child_nodes = [], node_sort_key = ''1''\<rparr>"

definition pair_node_y :: TalentTreeNode where
  "pair_node_y =
     \<lparr>node_id = ''y'', choices = [\<lparr>talent_name = ''y'', max_points = 16\<rparr>],
      node_gate_id = 0, parent_nodes = [], child_nodes = [], node_sort_key = ''2''\<rparr>"

definition pair_template :: TalentTree where
  "pair_template =
     \<lparr>gate_info = \<lparr>gates = [\<lparr>gate_id = 0, points_required_below = 0\<rparr>]\<rparr>,
      nodes = [pair_node_x, pair_node_y]\<rparr>"

definition pair_allocation :: "int \<Rightarrow> int \<Rightarrow> PlayerTalentTree" where
  "pair_allocation a b =
     \<lparr>tree_template = pair_template, max_points_available = 30,
      selection_by_node_id =
        [(''x'', \<lparr>node_reference = pair_node_x, points_spent_by_choice_index = [a]\<rparr>),
         (''y'', \<lparr>node_reference = pair_node_y, points_spent_by_choice_index = [b]\<rparr>)],
      spent_points_by_gate = (\<lambda>_. 0)(0 := a + b)\<rparr>"

definition pair_forest :: ClassTalentForest where
  "pair_forest = \<lparr>spec = HAVOC, spec_tree = pair_template\<rparr>"

definition example_forest :: ClassTalentForest where
  "example_forest = \<lparr>spec = HAVOC, spec_tree = example_template\<rparr>"

definition example_player :: Player where
  "example_player = \<lparr>name = ''player'', level = 80, race = ''elf''\<rparr>"

text \<open>
  The rest of the input of a run: locked class and hero trees, the talents record that is
  made of them and an allocation, a simulation runner that answers with 1 dps for its first
  \<open>n\<close> calls and fails from then on, and a random generator that leaves every
  list in its order.
\<close>

definition example_locked :: LockedTalentTrees where
  "example_locked =
     \<lparr>locked_class_tree = Some (FixedTalentStringProvider ''class''), locked_spec_tree = None,
      locked_hero_tree = Some (FixedTalentStringProvider ''hero'')\<rparr>"

definition record_of :: "PlayerTalentTree \<Rightarrow> TalentsRecord" where
  "record_of t =
     \<lparr>class_talents = FixedTalentStringProvider ''class'', spec_talents = TreeProvider t,
      hero_talents = FixedTalentStringProvider ''hero''\<rparr>"

definition failing_runner :: "nat \<Rightarrow> nat \<Rightarrow> TalentsRecord \<Rightarrow> SimOutput option" where
  "failing_runner n k r = (if k < n then Some \<lparr>dps = 1\<rparr> else None)"

definition no_shuffle :: "nat \<Rightarrow> nat list" where
  "no_shuffle k = []"

definition example_env :: "nat \<Rightarrow> search_env" where
  "example_env n = make_env (failing_runner n) no_shuffle None (Some example_locked)"

text \<open>
  The states of the run over the pair template with the runner that fails from its fourth
  call on: where the loop starts, after the first pass, and after the second and last pass.
\<close>

definition pair_started :: search_state where
  "pair_started =
     \<lparr>dps_by_talent_str = [''x:16/y:16'' \<mapsto> 1], beam = [pair_allocation 16 16], best_dps = 0,
      best_tree_so_far = None, iteration = 0, candidates = [], has_new_candidates = False,
      sim_calls = [(record_of (pair_allocation 16 16), Some \<lparr>dps = 1\<rparr>)], shuffle_count = 0\<rparr>"

definition pair_second :: search_state where
  "pair_second =
     \<lparr>dps_by_talent_str = [''x:16/y:16'' \<mapsto> 1, ''x:15/y:16'' \<mapsto> 1, ''x:16/y:15'' \<mapsto> 1],
      beam = [pair_allocation 15 16, pair_allocation 16 15], best_dps = 0,
      best_tree_so_far = None, iteration = 1,
      candidates = [(pair_allocation 15 16, 1), (pair_allocation 16 15, 1)],
      has_new_candidates = True,
      sim_calls = [(record_of (pair_allocation 16 16), Some \<lparr>dps = 1\<rparr>),
                   (record_of (pair_allocation 15 16), Some \<lparr>dps = 1\<rparr>),
                   (record_of (pair_allocation 16 15), Some \<lparr>dps = 1\<rparr>)],
      shuffle_count = 4\<rparr>"

definition pair_last :: search_state where
  "pair_last =
     \<lparr>dps_by_talent_str = [''x:16/y:16'' \<mapsto> 1, ''x:15/y:16'' \<mapsto> 1, ''x:16/y:15'' \<mapsto> 1],
      beam = [pair_allocation 15 16, pair_allocation 16 15], best_dps = 0,
      best_tree_so_far = None, iteration = 2, candidates = [], has_new_candidates = False,
      sim_calls = [(record_of (pair_allocation 16 16), Some \<lparr>dps = 1\<rparr>),
                   (record_of (pair_allocation 15 16), Some \<lparr>dps = 1\<rparr>),
                   (record_of (pair_allocation 16 15), Some \<lparr>dps = 1\<rparr>),
                   (record_of (pair_allocation 14 16), None),
                   (record_of (pair_allocation 15 15), None),
                   (record_of (pair_allocation 15 15), None),
                   (record_of (pair_allocation 16 14), None)],
      shuffle_count = 12\<rparr>"

text \<open>
  The states of the run over the small template, whose filled allocation holds 4 points and
  is within the budget: where the loop starts and after its only pass; and the result.
\<close>

definition example_started :: search_state where
  "example_started =
     \<lparr>dps_by_talent_str = [''alpha:2/aleph:1/beta:1'' \<mapsto> 1], beam = [example_seed], best_dps = 0,
      best_tree_so_far = None, iteration = 0, candidates = [], has_new_candidates = False,
      sim_calls = [(record_of example_seed, Some \<lparr>dps = 1\<rparr>)], shuffle_count = 0\<rparr>"

definition example_last :: search_state where
  "example_last =
     \<lparr>dps_by_talent_str = [''alpha:2/aleph:1/beta:1'' \<mapsto> 1], beam = [example_seed], best_dps = 1,
      best_tree_so_far = Some example_seed, iteration = 1, candidates = [(example_seed, 1)],
      has_new_candidates = False,
      sim_calls = [(record_of example_seed, Some \<lparr>dps = 1\<rparr>)], shuffle_count = 0\<rparr>"

definition example_result :: BeamSearchOptimizationResult where
  "example_result =
     \<lparr>best_tree_result =
        Some \<lparr>best_class_tree_result = FixedTalentStringProvider ''class'',
              best_spec_tree_result = TreeProvider example_seed,
              best_hero_tree_result = FixedTalentStringProvider ''hero''\<rparr>,
      result_best_dps = 1\<rparr>"

section \<open>Properties of the allocation operations\<close>

lemma init_empty: "PlayerTalentNodeSelection_init node (map (\<lambda>_. 0) (choices node)) = Inr (empty_selection node)"
  by (simp add: PlayerTalentNodeSelection_init_def empty_selection_def)

lemma get_empty_selections_loop_eq:
  "get_empty_selections_loop ns acc =
     Inr (fold (\<lambda>n. AList.update (node_id n) (empty_selection n)) ns acc)"
  by (induction ns arbitrary: acc) (simp_all add: init_empty)

lemma get_empty_selections_dict_eq: "get_empty_selections_dict tmpl = Inr (empty_dict tmpl)"
  by (simp add: get_empty_selections_dict_def get_empty_selections_loop_eq empty_dict_def)

lemma distinct_fold_update:
  "distinct (map fst acc) \<Longrightarrow> distinct (map fst (fold (\<lambda>n. AList.update (f n) (g n)) ns acc))"
  by (induction ns arbitrary: acc) (simp_all add: distinct_update)

lemma distinct_empty_dict: "distinct (map fst (empty_dict tmpl))"
  by (simp add: empty_dict_def distinct_fold_update)

lemma map_of_fold_update:
  "map_of (fold (\<lambda>n. AList.update (f n) (g n)) ns acc) =
     map_of acc ++ map_of (rev (map (\<lambda>n. (f n, g n)) ns))"
proof (induction ns arbitrary: acc)
  case Nil
  then show ?case by simp
next
  case (Cons n ns)
  show ?case
    by (rule ext) (simp add: Cons.IH update_conv' map_add_def split: option.splits)
qed

lemma map_of_map_pair:
  "map_of (map (\<lambda>n. (f n, g n)) xs) k = map_option g (map_of (map (\<lambda>n. (f n, n)) xs) k)"
  by (induction xs) simp_all

lemma map_of_empty_dict:
  "map_of (empty_dict tmpl) k = map_option empty_selection (template_node_by_id tmpl k)"
  unfolding empty_dict_def template_node_by_id_def map_of_fold_update rev_map
  by (simp add: map_of_map_pair[of node_id empty_selection])

lemma template_node_by_id_node_id:
  "template_node_by_id tmpl k = Some n \<Longrightarrow> node_id n = k"
  unfolding template_node_by_id_def by (auto dest!: map_of_SomeD)

lemma template_node_by_id_in_nodes:
  "template_node_by_id tmpl k = Some n \<Longrightarrow> n \<in> set (nodes tmpl)"
  unfolding template_node_by_id_def by (auto dest!: map_of_SomeD)

lemma node_reference_empty_selection [simp]: "node_reference (empty_selection n) = n"
  by (simp add: empty_selection_def)

lemma points_empty_selection [simp]:
  "points_spent_by_choice_index (empty_selection n) = map (\<lambda>_. 0) (choices n)"
  by (simp add: empty_selection_def)

lemma set_fold_update_subset:
  "set (fold (\<lambda>n. AList.update (f n) (g n)) ns acc) \<subseteq> set acc \<union> (\<lambda>n. (f n, g n)) ` set ns"
proof (induction ns arbitrary: acc)
  case Nil
  then show ?case by simp
next
  case (Cons n ns)
  have "set (AList.update (f n) (g n) acc) \<subseteq> insert (f n, g n) (set acc)"
    by (induction acc) auto
  with Cons.IH[of "AList.update (f n) (g n) acc"] show ?case by auto
qed

lemma empty_dict_values:
  "(k, s) \<in> set (empty_dict tmpl) \<Longrightarrow> empty_selection (node_reference s) = s"
  using set_fold_update_subset[of node_id empty_selection "nodes tmpl" "[]"]
  by (auto simp: empty_dict_def)

lemma empty_dict_fixed:
  "map (\<lambda>(nid, s). (nid, empty_selection (node_reference s))) (empty_dict tmpl) = empty_dict tmpl"
  by (rule map_idI) (auto simp: empty_dict_values)

lemma allocation_ok_keys:
  "allocation_ok t \<Longrightarrow> map fst (selection_by_node_id t) = map fst (empty_dict (tree_template t))"
  by (simp add: allocation_ok_def get_empty_selections_dict_eq comp_def case_prod_unfold)

lemma allocation_ok_distinct:
  "allocation_ok t \<Longrightarrow> distinct (map fst (selection_by_node_id t))"
  by (simp add: allocation_ok_keys distinct_empty_dict)

lemma allocation_ok_template_node:
  assumes "allocation_ok t" and "map_of (selection_by_node_id t) k = Some s"
  shows "template_node_by_id (tree_template t) k = Some (node_reference s)"
proof -
  from assms(2) have "(k, s) \<in> set (selection_by_node_id t)" by (rule map_of_SomeD)
  then have "(k, empty_selection (node_reference s)) \<in> set (empty_dict (tree_template t))"
    using assms(1) by (force simp: allocation_ok_def get_empty_selections_dict_eq)
  then have "map_of (empty_dict (tree_template t)) k = Some (empty_selection (node_reference s))"
    by (simp add: distinct_empty_dict)
  then obtain n where n: "template_node_by_id (tree_template t) k = Some n"
    and "empty_selection n = empty_selection (node_reference s)"
    by (auto simp: map_of_empty_dict)
  then have "n = node_reference s"
    by (metis node_reference_empty_selection)
  with n show ?thesis by simp
qed

lemma allocation_ok_lookup_iff:
  assumes "allocation_ok t"
  shows "map_of (selection_by_node_id t) k = None \<longleftrightarrow> template_node_by_id (tree_template t) k = None"
proof -
  have "map_of (selection_by_node_id t) k = None \<longleftrightarrow> k \<notin> set (map fst (selection_by_node_id t))"
    by (simp add: map_of_eq_None_iff)
  also have "\<dots> \<longleftrightarrow> k \<notin> set (map fst (empty_dict (tree_template t)))"
    using assms by (simp add: allocation_ok_keys)
  also have "\<dots> \<longleftrightarrow> map_of (empty_dict (tree_template t)) k = None"
    by (simp add: map_of_eq_None_iff)
  also have "\<dots> \<longleftrightarrow> template_node_by_id (tree_template t) k = None"
    by (simp add: map_of_empty_dict)
  finally show ?thesis .
qed

lemma allocation_ok_length:
  "allocation_ok t \<Longrightarrow> map_of (selection_by_node_id t) k = Some s \<Longrightarrow>
   length (points_spent_by_choice_index s) = length (choices (node_reference s))"
  by (auto simp: allocation_ok_def list_all_iff dest!: map_of_SomeD)

lemma allocation_ok_node_id:
  "allocation_ok t \<Longrightarrow> map_of (selection_by_node_id t) k = Some s \<Longrightarrow> node_id (node_reference s) = k"
  by (drule (1) allocation_ok_template_node) (rule template_node_by_id_node_id)

lemma points_in_gate_gate_sum: "points_in_gate t g = gate_sum (selection_by_node_id t) g"
  by (simp add: points_in_gate_def)

lemma gate_sum_Cons:
  "gate_sum ((k, s) # al) g =
     (if node_gate_id (node_reference s) = g then sum_list (points_spent_by_choice_index s) else 0)
       + gate_sum al g"
  by (simp add: gate_sum_def)

lemma gate_sum_Nil [simp]: "gate_sum [] g = 0"
  by (simp add: gate_sum_def)

lemma sum_list_update_int:
  "i < length (xs::int list) \<Longrightarrow> sum_list (xs[i := v]) = sum_list xs - xs ! i + v"
  by (induction xs arbitrary: i) (auto split: nat.splits)

lemma sum_list_alist_update:
  "map_of al k = Some v \<Longrightarrow>
   sum_list (map f (AList.update k v' al)) = sum_list (map f al) - f (k, v) + (f (k, v') :: int)"
  by (induction al) (auto)

lemma map_alist_update_same:
  "map_of al k = Some v \<Longrightarrow> h (k, v') = h (k, v) \<Longrightarrow> map h (AList.update k v' al) = map h al"
  by (induction al) (auto)

lemma gate_sum_update:
  assumes "map_of al k = Some s" and "node_reference s' = node_reference s"
  shows "gate_sum (AList.update k s' al) g =
     gate_sum al g +
       (if node_gate_id (node_reference s) = g
        then sum_list (points_spent_by_choice_index s') - sum_list (points_spent_by_choice_index s)
        else 0)"
  using assms by (induction al) (auto simp: gate_sum_Cons)

lemma skill_choices_loop_sum:
  assumes "k + length chs \<le> length pts"
    and "\<And>i. k \<le> i \<Longrightarrow> i < k + length chs \<Longrightarrow> (node_id node, int i) \<in> ex \<or> pts ! i = 0"
  shows "\<exists>pts' D. skill_choices_loop ex node (enumerate k chs) pts spent =
            Inr (pts', spent(node_gate_id node := spent (node_gate_id node) + D)) \<and>
          length pts' = length pts \<and> sum_list pts' = sum_list pts + D"
  using assms
proof (induction chs arbitrary: k pts spent)
  case Nil
  show ?case by (rule exI[of _ pts], rule exI[of _ 0]) simp
next
  case (Cons ch chs)
  show ?case
  proof (cases "(node_id node, int k) \<in> ex")
    case True
    have "\<exists>pts' D. skill_choices_loop ex node (enumerate (Suc k) chs) pts spent =
            Inr (pts', spent(node_gate_id node := spent (node_gate_id node) + D)) \<and>
          length pts' = length pts \<and> sum_list pts' = sum_list pts + D"
      using Cons.prems by (intro Cons.IH) auto
    moreover have "skill_choices_loop ex node (enumerate k (ch # chs)) pts spent =
        skill_choices_loop ex node (enumerate (Suc k) chs) pts spent"
      using True by simp
    ultimately show ?thesis by metis
  next
    case False
    let ?g = "node_gate_id node"
    let ?pts1 = "pts[k := max_points ch]"
    let ?spent1 = "spent(?g := spent ?g + max_points ch)"
    have k: "k < length pts" using Cons.prems(1) by simp
    have z: "pts ! k = 0" using Cons.prems(2)[of k] False by simp
    have "\<exists>pts' D. skill_choices_loop ex node (enumerate (Suc k) chs) ?pts1 ?spent1 =
            Inr (pts', ?spent1(?g := ?spent1 ?g + D)) \<and>
          length pts' = length ?pts1 \<and> sum_list pts' = sum_list ?pts1 + D"
    proof (intro Cons.IH)
      show "Suc k + length chs \<le> length ?pts1" using Cons.prems(1) by simp
      fix i assume "Suc k \<le> i" "i < Suc k + length chs"
      then show "(node_id node, int i) \<in> ex \<or> ?pts1 ! i = 0"
        using Cons.prems(2)[of i] by auto
    qed
    then obtain pts' D where r: "skill_choices_loop ex node (enumerate (Suc k) chs) ?pts1 ?spent1 =
            Inr (pts', ?spent1(?g := ?spent1 ?g + D))"
      and l: "length pts' = length ?pts1" and s: "sum_list pts' = sum_list ?pts1 + D"
      by blast
    have "skill_choices_loop ex node (enumerate k (ch # chs)) pts spent =
            Inr (pts', spent(?g := spent ?g + (max_points ch + D)))"
      using False k r by (simp add: Let_def add.assoc)
    moreover have "sum_list pts' = sum_list pts + (max_points ch + D)"
      using s k z by (simp add: sum_list_update_int)
    ultimately show ?thesis using l by (metis length_list_update)
  qed
qed

lemma list_all_enumerate_nth:
  "list_all (\<lambda>(i, p). P i p) (enumerate 0 xs) \<longleftrightarrow> (\<forall>i < length xs. P i (xs ! i))"
  by (auto simp: list_all_iff in_set_enumerate_eq)

lemma skill_selections_loop_sum:
  assumes "list_all (\<lambda>(nid, s). length (points_spent_by_choice_index s) = length (choices (node_reference s))) al"
    and "list_all (\<lambda>(nid, s).
        list_all (\<lambda>(i, p). (node_id (node_reference s), int i) \<in> ex \<or> p = 0)
          (enumerate 0 (points_spent_by_choice_index s))) al"
  shows "\<exists>al' spent'. skill_selections_loop ex al spent = Inr (al', spent') \<and>
          map (\<lambda>(nid, s). (nid, node_reference s)) al' = map (\<lambda>(nid, s). (nid, node_reference s)) al \<and>
          list_all (\<lambda>(nid, s). length (points_spent_by_choice_index s) = length (choices (node_reference s))) al' \<and>
          (\<forall>g. spent' g = spent g + gate_sum al' g - gate_sum al g)"
  using assms
proof (induction al arbitrary: spent)
  case Nil
  then show ?case by simp
next
  case (Cons a al)
  obtain nid s where a: "a = (nid, s)" by (cases a)
  let ?node = "node_reference s"
  let ?pts = "points_spent_by_choice_index s"
  have len: "length ?pts = length (choices ?node)" using Cons.prems(1) a by simp
  have zero: "\<And>i. i < length ?pts \<Longrightarrow> (node_id ?node, int i) \<in> ex \<or> ?pts ! i = 0"
    using Cons.prems(2) a by (simp add: list_all_enumerate_nth)
  have "\<exists>pts' D. skill_choices_loop ex ?node (enumerate 0 (choices ?node)) ?pts spent =
            Inr (pts', spent(node_gate_id ?node := spent (node_gate_id ?node) + D)) \<and>
          length pts' = length ?pts \<and> sum_list pts' = sum_list ?pts + D"
    by (rule skill_choices_loop_sum) (use len zero in auto)
  then obtain pts' D where
    inner: "skill_choices_loop ex ?node (enumerate 0 (choices ?node)) ?pts spent =
            Inr (pts', spent(node_gate_id ?node := spent (node_gate_id ?node) + D))"
    and l: "length pts' = length ?pts" and sm: "sum_list pts' = sum_list ?pts + D"
    by blast
  let ?spent1 = "spent(node_gate_id ?node := spent (node_gate_id ?node) + D)"
  have "list_all (\<lambda>(nid, s). length (points_spent_by_choice_index s) = length (choices (node_reference s))) al"
    and "list_all (\<lambda>(nid, s).
        list_all (\<lambda>(i, p). (node_id (node_reference s), int i) \<in> ex \<or> p = 0)
          (enumerate 0 (points_spent_by_choice_index s))) al"
    using Cons.prems by simp_all
  from Cons.IH[OF this, of ?spent1] obtain al' spent' where
    rest: "skill_selections_loop ex al ?spent1 = Inr (al', spent')"
    and keys: "map (\<lambda>(nid, s). (nid, node_reference s)) al' = map (\<lambda>(nid, s). (nid, node_reference s)) al"
    and lens: "list_all (\<lambda>(nid, s). length (points_spent_by_choice_index s) = length (choices (node_reference s))) al'"
    and tot: "\<forall>g. spent' g = ?spent1 g + gate_sum al' g - gate_sum al g"
    by blast
  let ?s' = "s\<lparr>points_spent_by_choice_index := pts'\<rparr>"
  have res: "skill_selections_loop ex (a # al) spent = Inr ((nid, ?s') # al', spent')"
    using a inner rest by simp
  have "\<forall>g. spent' g = spent g + gate_sum ((nid, ?s') # al') g - gate_sum (a # al) g"
    using tot sm a by (auto simp: gate_sum_Cons)
  moreover have "map (\<lambda>(nid, s). (nid, node_reference s)) ((nid, ?s') # al') =
      map (\<lambda>(nid, s). (nid, node_reference s)) (a # al)"
    using keys a by simp
  moreover have "list_all (\<lambda>(nid, s). length (points_spent_by_choice_index s) = length (choices (node_reference s)))
      ((nid, ?s') # al')"
    using lens l len by simp
  ultimately show ?case using res by blast
qed

lemma PlayerTalentTree_init_eq:
  "PlayerTalentTree_init tmpl b =
     Inr \<lparr>tree_template = tmpl, max_points_available = b,
          selection_by_node_id = empty_dict tmpl, spent_points_by_gate = (\<lambda>_. 0)\<rparr>"
  by (simp add: PlayerTalentTree_init_def get_empty_selections_dict_eq)

lemma empty_dict_lengths:
  "list_all (\<lambda>(nid, s). length (points_spent_by_choice_index s) = length (choices (node_reference s)))
     (empty_dict tmpl)"
proof -
  have "length (points_spent_by_choice_index s) = length (choices (node_reference s))"
    if "(k, s) \<in> set (empty_dict tmpl)" for k s
    using empty_dict_values[OF that] by (metis length_map points_empty_selection)
  then show ?thesis by (auto simp: list_all_iff)
qed

lemma empty_dict_points:
  assumes "(k, s) \<in> set (empty_dict tmpl)"
  shows "sum_list (points_spent_by_choice_index s) = 0"
proof -
  have "points_spent_by_choice_index s = map (\<lambda>_. 0) (choices (node_reference s))"
    using empty_dict_values[OF assms] by (metis points_empty_selection)
  then show ?thesis by simp
qed

lemma gate_sum_zero:
  "\<forall>(k, s) \<in> set al. sum_list (points_spent_by_choice_index s) = 0 \<Longrightarrow> gate_sum al g = 0"
  by (induction al) (auto simp: gate_sum_Cons)

lemma allocation_ok_init:
  "PlayerTalentTree_init tmpl b = Inr t \<Longrightarrow> allocation_ok t"
  by (auto simp: PlayerTalentTree_init_eq allocation_ok_def get_empty_selections_dict_eq
      empty_dict_fixed empty_dict_lengths)

lemma gate_totals_consistent_init:
  "PlayerTalentTree_init tmpl b = Inr t \<Longrightarrow> gate_totals_consistent t"
proof -
  have "gate_sum (empty_dict tmpl) g = 0" for g
    by (rule gate_sum_zero) (auto simp: empty_dict_points)
  then show "PlayerTalentTree_init tmpl b = Inr t \<Longrightarrow> gate_totals_consistent t"
    by (auto simp: PlayerTalentTree_init_eq gate_totals_consistent_def points_in_gate_gate_sum)
qed

lemma copy_loop_id:
  assumes "list_all (\<lambda>(nid, s). length (points_spent_by_choice_index s) = length (choices (node_reference s))) al"
    and "distinct (map fst (pre @ al))"
    and "map fst acc = map fst al"
  shows "copy_loop al (pre @ acc) = Inr (pre @ al)"
  using assms
proof (induction al arbitrary: pre acc)
  case Nil
  then show ?case by simp
next
  case (Cons a al)
  obtain k s where a: "a = (k, s)" by (cases a)
  from Cons.prems(3) a obtain s0 acc' where acc: "acc = (k, s0) # acc'" and keys: "map fst acc' = map fst al"
    by (cases acc) auto
  have init: "PlayerTalentNodeSelection_init (node_reference s) (points_spent_by_choice_index s) = Inr s"
    using Cons.prems(1) a by (simp add: PlayerTalentNodeSelection_init_def)
  have k: "k \<notin> fst ` set pre" using Cons.prems(2) a by auto
  have upd: "AList.update k s (pre @ (k, s0) # acc') = (pre @ [(k, s)]) @ acc'"
    using k by (induction pre) auto
  have "copy_loop al ((pre @ [(k, s)]) @ acc') = Inr ((pre @ [(k, s)]) @ al)"
    using Cons.prems a keys by (intro Cons.IH) auto
  then show ?case using a acc init upd by simp
qed

lemma copy_id:
  assumes "allocation_ok t"
  shows "copy t = Inr t"
proof -
  have "copy_loop (selection_by_node_id t) ([] @ empty_dict (tree_template t)) =
      Inr ([] @ selection_by_node_id t)"
  proof (intro copy_loop_id)
    show "list_all (\<lambda>(nid, s). length (points_spent_by_choice_index s) = length (choices (node_reference s)))
        (selection_by_node_id t)"
      using assms by (simp add: allocation_ok_def)
    show "distinct (map fst ([] @ selection_by_node_id t))"
      using assms by (simp add: allocation_ok_distinct)
    show "map fst (empty_dict (tree_template t)) = map fst (selection_by_node_id t)"
      using assms by (simp add: allocation_ok_keys)
  qed
  then show ?thesis
    by (simp add: copy_def PlayerTalentTree_init_eq)
qed

lemma remove_point_from_choice_Inr:
  assumes "0 \<le> c" "nat c < length (points_spent_by_choice_index s)"
    "length (points_spent_by_choice_index s) = length (choices (node_reference s))"
    "points_spent_by_choice_index s ! nat c \<ge> 1"
  shows "remove_point_from_choice s c =
     Inr (s\<lparr>points_spent_by_choice_index :=
             (points_spent_by_choice_index s)[nat c := points_spent_by_choice_index s ! nat c - 1]\<rparr>)"
  using assms by (simp add: remove_point_from_choice_def)

lemma remove_point_from_choice_InrD:
  assumes "remove_point_from_choice s c = Inr s'"
  shows "0 \<le> c \<and> nat c < length (points_spent_by_choice_index s) \<and>
     nat c < length (choices (node_reference s)) \<and>
     points_spent_by_choice_index s ! nat c \<ge> 1 \<and>
     s' = s\<lparr>points_spent_by_choice_index :=
             (points_spent_by_choice_index s)[nat c := points_spent_by_choice_index s ! nat c - 1]\<rparr>"
  using assms by (auto simp: remove_point_from_choice_def split: if_splits)

lemma decrement_node_InrD:
  assumes "decrement_node t nid c = Inr t'"
  obtains s s' where "map_of (selection_by_node_id t) nid = Some s"
    and "remove_point_from_choice s c = Inr s'"
    and "t' = t\<lparr>selection_by_node_id := AList.update nid s' (selection_by_node_id t),
                   spent_points_by_gate := (spent_points_by_gate t)
                     (node_gate_id (node_reference s) :=
                        spent_points_by_gate t (node_gate_id (node_reference s)) - 1)\<rparr>"
proof -
  from assms obtain s where s: "map_of (selection_by_node_id t) nid = Some s"
    by (auto simp: decrement_node_def split: option.splits)
  with assms obtain s' where s': "remove_point_from_choice s c = Inr s'"
    by (auto simp: decrement_node_def split: sum.splits)
  have "node_reference s' = node_reference s"
    using remove_point_from_choice_InrD[OF s'] by simp
  with assms s s' that show thesis
    by (simp add: decrement_node_def Let_def)
qed

lemma decrement_node_total:
  assumes "decrement_node t nid c = Inr t'"
  shows "get_total_points_spent t' = get_total_points_spent t - 1"
proof -
  from assms obtain s s' where s: "map_of (selection_by_node_id t) nid = Some s"
    and r: "remove_point_from_choice s c = Inr s'"
    and t': "t' = t\<lparr>selection_by_node_id := AList.update nid s' (selection_by_node_id t),
                   spent_points_by_gate := (spent_points_by_gate t)
                     (node_gate_id (node_reference s) :=
                        spent_points_by_gate t (node_gate_id (node_reference s)) - 1)\<rparr>"
    by (rule decrement_node_InrD)
  note d = remove_point_from_choice_InrD[OF r]
  have "sum_list (points_spent_by_choice_index s') = sum_list (points_spent_by_choice_index s) - 1"
    using d by (simp add: sum_list_update_int)
  then show ?thesis
    unfolding get_total_points_spent_def t' using s
    by (simp add: sum_list_alist_update)
qed

lemma decrement_node_gate_sum:
  assumes "decrement_node t nid c = Inr t'" and "map_of (selection_by_node_id t) nid = Some s"
  shows "points_in_gate t' g =
     points_in_gate t g - (if node_gate_id (node_reference s) = g then 1 else 0)"
proof -
  from assms obtain s' where
    r: "remove_point_from_choice s c = Inr s'"
    and t': "t' = t\<lparr>selection_by_node_id := AList.update nid s' (selection_by_node_id t),
                   spent_points_by_gate := (spent_points_by_gate t)
                     (node_gate_id (node_reference s) :=
                        spent_points_by_gate t (node_gate_id (node_reference s)) - 1)\<rparr>"
    by (auto elim!: decrement_node_InrD)
  note d = remove_point_from_choice_InrD[OF r]
  have sm: "sum_list (points_spent_by_choice_index s') = sum_list (points_spent_by_choice_index s) - 1"
    using d by (simp add: sum_list_update_int)
  have nr: "node_reference s' = node_reference s" using d by simp
  show ?thesis
    unfolding points_in_gate_gate_sum t'
    using gate_sum_update[OF assms(2) nr, where g=g] sm by simp
qed

lemma decrement_node_consistent:
  assumes "decrement_node t nid c = Inr t'" and "gate_totals_consistent t"
  shows "gate_totals_consistent t'"
proof -
  from assms(1) obtain s s' where s: "map_of (selection_by_node_id t) nid = Some s"
    and t': "t' = t\<lparr>selection_by_node_id := AList.update nid s' (selection_by_node_id t),
                   spent_points_by_gate := (spent_points_by_gate t)
                     (node_gate_id (node_reference s) :=
                        spent_points_by_gate t (node_gate_id (node_reference s)) - 1)\<rparr>"
    by (rule decrement_node_InrD)
  have "spent_points_by_gate t' g = points_in_gate t' g" for g
    using decrement_node_gate_sum[OF assms(1) s, of g] assms(2)
    by (simp add: t' gate_totals_consistent_def)
  then show ?thesis by (simp add: gate_totals_consistent_def)
qed

lemma decrement_node_allocation_ok:
  assumes "decrement_node t nid c = Inr t'" and "allocation_ok t"
  shows "allocation_ok t'"
proof -
  from assms(1) obtain s s' where s: "map_of (selection_by_node_id t) nid = Some s"
    and r: "remove_point_from_choice s c = Inr s'"
    and t': "t' = t\<lparr>selection_by_node_id := AList.update nid s' (selection_by_node_id t),
                   spent_points_by_gate := (spent_points_by_gate t)
                     (node_gate_id (node_reference s) :=
                        spent_points_by_gate t (node_gate_id (node_reference s)) - 1)\<rparr>"
    by (rule decrement_node_InrD)
  note d = remove_point_from_choice_InrD[OF r]
  have nr: "node_reference s' = node_reference s" using d by simp
  have ln: "length (points_spent_by_choice_index s') = length (points_spent_by_choice_index s)"
    using d by simp
  have m1: "map (\<lambda>(nid, s). (nid, empty_selection (node_reference s)))
        (AList.update nid s' (selection_by_node_id t)) =
      map (\<lambda>(nid, s). (nid, empty_selection (node_reference s))) (selection_by_node_id t)"
    by (rule map_alist_update_same[OF s]) (simp add: nr)
  have m2: "map (\<lambda>(nid, s). length (points_spent_by_choice_index s) = length (choices (node_reference s)))
        (AList.update nid s' (selection_by_node_id t)) =
      map (\<lambda>(nid, s). length (points_spent_by_choice_index s) = length (choices (node_reference s)))
        (selection_by_node_id t)"
    by (rule map_alist_update_same[OF s]) (simp add: nr ln)
  have "list_all (\<lambda>(nid, s). length (points_spent_by_choice_index s) = length (choices (node_reference s)))
        (AList.update nid s' (selection_by_node_id t))"
    using assms(2) m2 unfolding allocation_ok_def list_all_iff
    by (metis (no_types, lifting) in_set_conv_nth length_map nth_map nth_mem)
  then show ?thesis
    using assms(2) m1 by (simp add: allocation_ok_def t')
qed

lemma skill_all_nodes_ok:
  assumes "allocation_ok t" and "fillable_choices_empty t ex"
  shows "\<exists>t'. skill_all_nodes t ex = Inr t' \<and> allocation_ok t' \<and>
           tree_template t' = tree_template t \<and> max_points_available t' = max_points_available t \<and>
           (gate_totals_consistent t \<longrightarrow> gate_totals_consistent t')"
proof -
  from skill_selections_loop_sum[of "selection_by_node_id t" ex "spent_points_by_gate t"] assms
  obtain al' spent' where
    r: "skill_selections_loop ex (selection_by_node_id t) (spent_points_by_gate t) = Inr (al', spent')"
    and keys: "map (\<lambda>(nid, s). (nid, node_reference s)) al' =
               map (\<lambda>(nid, s). (nid, node_reference s)) (selection_by_node_id t)"
    and lens: "list_all (\<lambda>(nid, s). length (points_spent_by_choice_index s) = length (choices (node_reference s))) al'"
    and tot: "\<forall>g. spent' g = spent_points_by_gate t g + gate_sum al' g - gate_sum (selection_by_node_id t) g"
    unfolding allocation_ok_def fillable_choices_empty_def by blast
  let ?t' = "t\<lparr>selection_by_node_id := al', spent_points_by_gate := spent'\<rparr>"
  have res: "skill_all_nodes t ex = Inr ?t'" using r by (simp add: skill_all_nodes_def)
  have "map (\<lambda>(k, n). (k, empty_selection n)) (map (\<lambda>(nid, s). (nid, node_reference s)) al') =
        map (\<lambda>(k, n). (k, empty_selection n))
          (map (\<lambda>(nid, s). (nid, node_reference s)) (selection_by_node_id t))"
    using keys by simp
  then have "map (\<lambda>(nid, s). (nid, empty_selection (node_reference s))) al' =
        map (\<lambda>(nid, s). (nid, empty_selection (node_reference s))) (selection_by_node_id t)"
    by (simp add: case_prod_unfold comp_def)
  then have ok: "allocation_ok ?t'"
    using assms(1) lens by (simp add: allocation_ok_def)
  have "gate_totals_consistent ?t'" if "gate_totals_consistent t"
    using that tot by (simp add: gate_totals_consistent_def points_in_gate_gate_sum)
  with res ok show ?thesis by simp
qed

lemma decrement_node_Inr:
  assumes "allocation_ok t" and "choice_holds_point t nid c"
  shows "\<exists>t'. decrement_node t nid c = Inr t'"
proof -
  from assms(2) obtain s where s: "map_of (selection_by_node_id t) nid = Some s"
    and c: "0 \<le> c" "nat c < length (points_spent_by_choice_index s)"
      "points_spent_by_choice_index s ! nat c \<ge> 1"
    by (auto simp: choice_holds_point_def split: option.splits)
  have "length (points_spent_by_choice_index s) = length (choices (node_reference s))"
    using assms(1) s by (rule allocation_ok_length)
  then show ?thesis
    using s c by (simp add: decrement_node_def remove_point_from_choice_Inr Let_def)
qed

lemma example_fresh_init: "PlayerTalentTree_init example_template 30 = Inr example_fresh"
  by (simp add: PlayerTalentTree_init_def get_empty_selections_dict_def
      PlayerTalentNodeSelection_init_def example_template_def example_node_a_def example_node_b_def example_fresh_def example_allocation_def)

lemma example_seed_skill: "skill_all_nodes example_fresh {} = Inr example_seed"
  by (simp add: skill_all_nodes_def example_template_def example_node_a_def example_node_b_def example_fresh_def example_seed_def
      example_allocation_def fun_eq_iff)

lemma allocation_ok_example:
  "length pa = 2 \<Longrightarrow> length pb = 1 \<Longrightarrow> allocation_ok (example_allocation pa pb spent)"
  by (simp add: allocation_ok_def get_empty_selections_dict_def
      PlayerTalentNodeSelection_init_def example_template_def example_node_a_def example_node_b_def example_allocation_def empty_selection_def)

lemma gate_totals_consistent_example_seed: "gate_totals_consistent example_seed"
  by (simp add: gate_totals_consistent_def points_in_gate_def gate_sum_def example_seed_def
      example_allocation_def example_template_def example_node_a_def example_node_b_def)


section \<open>The gate totals (C3) and the effect of a removal (C4)\<close>

text \<open>
  Claim C3, as amended. The stored total of every gate is the sum of the points spent in
  the nodes of that gate: the constructor establishes this, \<open>decrement_node\<close>
  (where the target choice holds a point) and \<open>copy\<close> preserve it, and
  \<open>skill_all_nodes\<close> preserves it on an allocation in which no choice that it
  fills holds a point, as on the freshly constructed one. On an allocation that already
  holds points \<open>skill_all_nodes\<close> adds each maximum to the gate total again
  (second theorem below).
\<close>

theorem gate_totals_invariant:
  "(\<exists>t. PlayerTalentTree_init tmpl b = Inr t \<and> gate_totals_consistent t) \<and>
   (allocation_ok t0 \<and> gate_totals_consistent t0 \<and> fillable_choices_empty t0 except_for \<longrightarrow>
      (\<exists>t'. skill_all_nodes t0 except_for = Inr t' \<and> gate_totals_consistent t')) \<and>
   (allocation_ok t \<and> gate_totals_consistent t \<and> choice_holds_point t nid c \<longrightarrow>
      (\<exists>t'. decrement_node t nid c = Inr t' \<and> gate_totals_consistent t')) \<and>
   (allocation_ok t \<and> gate_totals_consistent t \<longrightarrow>
      (\<exists>t'. copy t = Inr t' \<and> gate_totals_consistent t'))"
proof (intro conjI impI)
  show "\<exists>t. PlayerTalentTree_init tmpl b = Inr t \<and> gate_totals_consistent t"
    using gate_totals_consistent_init[of tmpl b] by (simp add: PlayerTalentTree_init_eq)
next
  assume "allocation_ok t0 \<and> gate_totals_consistent t0 \<and> fillable_choices_empty t0 except_for"
  then show "\<exists>t'. skill_all_nodes t0 except_for = Inr t' \<and> gate_totals_consistent t'"
    using skill_all_nodes_ok[of t0 except_for] by blast
next
  assume a: "allocation_ok t \<and> gate_totals_consistent t \<and> choice_holds_point t nid c"
  then obtain t' where "decrement_node t nid c = Inr t'"
    using decrement_node_Inr by blast
  with a show "\<exists>t'. decrement_node t nid c = Inr t' \<and> gate_totals_consistent t'"
    using decrement_node_consistent by blast
next
  assume "allocation_ok t \<and> gate_totals_consistent t"
  then show "\<exists>t'. copy t = Inr t' \<and> gate_totals_consistent t'"
    by (simp add: copy_id)
qed

lemma choice_holds_point_example_seed: "choice_holds_point example_seed ''a'' 0"
  by (simp add: choice_holds_point_def example_seed_def example_allocation_def)

lemma fillable_choices_empty_example_fresh: "fillable_choices_empty example_fresh {(''a'', 1)}"
  by (simp add: fillable_choices_empty_def example_fresh_def example_allocation_def)

lemma gate_totals_consistent_example_fresh: "gate_totals_consistent example_fresh"
  using gate_totals_consistent_init[OF example_fresh_init] .

theorem gate_totals_invariant_witness:
  "allocation_ok example_fresh \<and> gate_totals_consistent example_fresh \<and>
   fillable_choices_empty example_fresh {(''a'', 1)} \<and>
   allocation_ok example_seed \<and> gate_totals_consistent example_seed \<and>
   choice_holds_point example_seed ''a'' 0 \<and>
   (\<exists>t. PlayerTalentTree_init example_template 30 = Inr t \<and> gate_totals_consistent t) \<and>
   (\<exists>t'. skill_all_nodes example_fresh {(''a'', 1)} = Inr t' \<and> gate_totals_consistent t') \<and>
   (\<exists>t'. decrement_node example_seed ''a'' 0 = Inr t' \<and> gate_totals_consistent t') \<and>
   (\<exists>t'. copy example_seed = Inr t' \<and> gate_totals_consistent t')"
  using gate_totals_invariant[of example_template 30 example_fresh "{(''a'', 1)}"
      example_seed "''a''" 0]
    gate_totals_consistent_example_seed choice_holds_point_example_seed
    fillable_choices_empty_example_fresh gate_totals_consistent_example_fresh
  by (simp add: allocation_ok_example example_seed_def example_fresh_def)

text \<open>
  Claim C3 as stated fails: the fully skilled example allocation satisfies the invariant,
  \<open>skill_all_nodes\<close> on it succeeds, and the result violates the invariant (gate 0
  stores 6 for 3 points spent).
\<close>

theorem skill_all_nodes_twice_counterexample:
  "allocation_ok example_seed \<and> gate_totals_consistent example_seed \<and>
   \<not> isl (skill_all_nodes example_seed {}) \<and>
   \<not> gate_totals_consistent (projr (skill_all_nodes example_seed {}))"
proof -
  have "skill_all_nodes example_seed {} =
      Inr (example_allocation [2, 1] [1] ((\<lambda>_. 0)(0 := 6, 1 := 2)))"
    by (simp add: skill_all_nodes_def example_template_def example_node_a_def example_node_b_def example_seed_def
        example_allocation_def fun_eq_iff)
  moreover have "\<not> gate_totals_consistent (example_allocation [2, 1] [1] ((\<lambda>_. 0)(0 := 6, 1 := 2)))"
    by (simp add: gate_totals_consistent_def points_in_gate_def gate_sum_def example_allocation_def
        example_template_def example_node_a_def example_node_b_def exI[of _ 0])
  ultimately show ?thesis
    using gate_totals_consistent_example_seed
    by (simp add: allocation_ok_example example_seed_def)
qed

text \<open>
  Claim C4. On an allocation in which choice \<open>c\<close> of node \<open>nid\<close> holds
  at least one point, \<open>decrement_node\<close> returns an allocation whose total of
  points spent is one less and whose stored total of the node's gate is one less; the
  stored totals of all other gates, the selections of all other nodes and the other
  choices of this node are unchanged.
\<close>

theorem decrement_node_frame:
  assumes "allocation_ok t" and "choice_holds_point t nid c"
    and "map_of (selection_by_node_id t) nid = Some s"
  shows "\<exists>t' s'. decrement_node t nid c = Inr t' \<and>
      get_total_points_spent t' = get_total_points_spent t - 1 \<and>
      spent_points_by_gate t' (node_gate_id (node_reference s)) =
        spent_points_by_gate t (node_gate_id (node_reference s)) - 1 \<and>
      (\<forall>g. g \<noteq> node_gate_id (node_reference s) \<longrightarrow>
         spent_points_by_gate t' g = spent_points_by_gate t g) \<and>
      map fst (selection_by_node_id t') = map fst (selection_by_node_id t) \<and>
      (\<forall>n. n \<noteq> nid \<longrightarrow> map_of (selection_by_node_id t') n = map_of (selection_by_node_id t) n) \<and>
      map_of (selection_by_node_id t') nid = Some s' \<and>
      node_reference s' = node_reference s \<and>
      length (points_spent_by_choice_index s') = length (points_spent_by_choice_index s) \<and>
      points_spent_by_choice_index s' ! nat c = points_spent_by_choice_index s ! nat c - 1 \<and>
      (\<forall>i. i \<noteq> nat c \<longrightarrow>
         points_spent_by_choice_index s' ! i = points_spent_by_choice_index s ! i)"
proof -
  from decrement_node_Inr[OF assms(1,2)] obtain t' where d: "decrement_node t nid c = Inr t'" ..
  from d assms(3) obtain s' where r: "remove_point_from_choice s c = Inr s'"
    and t': "t' = t\<lparr>selection_by_node_id := AList.update nid s' (selection_by_node_id t),
                   spent_points_by_gate := (spent_points_by_gate t)
                     (node_gate_id (node_reference s) :=
                        spent_points_by_gate t (node_gate_id (node_reference s)) - 1)\<rparr>"
    by (auto elim!: decrement_node_InrD)
  note p = remove_point_from_choice_InrD[OF r]
  have keys: "map fst (selection_by_node_id t') = map fst (selection_by_node_id t)"
    unfolding t' using map_alist_update_same[OF assms(3), of fst s'] by simp
  have other: "\<forall>n. n \<noteq> nid \<longrightarrow> map_of (selection_by_node_id t') n = map_of (selection_by_node_id t) n"
    by (simp add: t' update_conv')
  have same: "map_of (selection_by_node_id t') nid = Some s'"
    by (simp add: t' update_conv')
  show ?thesis
    apply (rule exI[of _ t'], rule exI[of _ s'])
    using d decrement_node_total[OF d] keys other same p
    by (simp add: t')
qed

theorem decrement_node_frame_witness:
  "allocation_ok example_seed \<and> choice_holds_point example_seed ''a'' 0 \<and>
   get_total_points_spent example_seed = 4 \<and>
   spent_points_by_gate example_seed 0 = 3 \<and>
   get_total_points_spent (projr (decrement_node example_seed ''a'' 0)) = 3 \<and>
   spent_points_by_gate (projr (decrement_node example_seed ''a'' 0)) 0 = 2 \<and>
   spent_points_by_gate (projr (decrement_node example_seed ''a'' 0)) 1 = 1"
proof -
  have ok: "allocation_ok example_seed"
    by (simp add: allocation_ok_example example_seed_def)
  have s: "map_of (selection_by_node_id example_seed) ''a'' =
      Some \<lparr>node_reference = example_node_a, points_spent_by_choice_index = [2, 1]\<rparr>"
    by (simp add: example_seed_def example_allocation_def)
  have g: "node_gate_id (example_node_a) = 0"
    by (simp add: example_template_def example_node_a_def example_node_b_def)
  have tot: "get_total_points_spent example_seed = 4" "spent_points_by_gate example_seed 0 = 3"
    "spent_points_by_gate example_seed 1 = 1"
    by (simp_all add: get_total_points_spent_def example_seed_def example_allocation_def)
  from decrement_node_frame[OF ok choice_holds_point_example_seed s]
  show ?thesis
    using ok choice_holds_point_example_seed tot g by auto
qed

section \<open>Properties of the legality check\<close>

lemma has_valid_parent_eq:
  assumes "\<forall>p \<in> set ps. p \<noteq> nid \<longrightarrow> map_of (selection_by_node_id t) p \<noteq> None"
  shows "has_valid_parent t nid ps =
     Inr (list_ex (\<lambda>p. p \<noteq> nid \<and>
                (case map_of (selection_by_node_id t) p of
                   None \<Rightarrow> False
                 | Some parent_selection \<Rightarrow> has_fully_skilled_choice parent_selection)) ps)"
  using assms by (induction ps) (auto split: option.splits)

lemma check_child_nodes_eq:
  assumes "child_refs_known t nid cs"
  shows "check_child_nodes t nid viol cs =
     (if \<not> viol \<and> (\<exists>c \<in> set cs. stranded_child t nid c) then Inl DecrementNotPossible else Inr ())"
  using assms
proof (induction cs)
  case Nil
  then show ?case by simp
next
  case (Cons c cs)
  from Cons.prems obtain cs_sel where c: "map_of (selection_by_node_id t) c = Some cs_sel"
    and ps: "\<forall>p \<in> set (parent_nodes (node_reference cs_sel)).
            p \<noteq> nid \<longrightarrow> map_of (selection_by_node_id t) p \<noteq> None"
    by (auto simp: child_refs_known_def)
  have rest: "child_refs_known t nid cs" using Cons.prems by (simp add: child_refs_known_def)
  note IH = Cons.IH[OF rest]
  have hv: "has_valid_parent t nid (parent_nodes (node_reference cs_sel)) =
      Inr (other_parent_fully_skilled t nid cs_sel)"
    using has_valid_parent_eq[OF ps] by (simp add: other_parent_fully_skilled_def)
  have sc: "stranded_child t nid c \<longleftrightarrow>
      holds_talent_points cs_sel \<and> \<not> other_parent_fully_skilled t nid cs_sel"
    using c by (simp add: stranded_child_def)
  show ?case
    using c hv sc IH by auto
qed

lemma template_node_by_id_None_iff:
  "template_node_by_id tmpl k = None \<longleftrightarrow> k \<notin> set (map node_id (nodes tmpl))"
  unfolding template_node_by_id_def
  by (simp add: map_of_eq_None_iff image_image)

lemma allocation_ok_node_in_template:
  assumes "allocation_ok t" and "map_of (selection_by_node_id t) k = Some s"
  shows "node_reference s \<in> set (nodes (tree_template t))"
  using allocation_ok_template_node[OF assms] by (rule template_node_by_id_in_nodes)

lemma child_refs_known_template:
  assumes ok: "allocation_ok t" and refs: "template_refs_ok (tree_template t)"
    and tn: "tn \<in> set (nodes (tree_template t))"
  shows "child_refs_known t nid (child_nodes tn)"
  unfolding child_refs_known_def
proof (intro ballI)
  fix c assume "c \<in> set (child_nodes tn)"
  then have "c \<in> set (map node_id (nodes (tree_template t)))"
    using refs tn by (auto simp: template_refs_ok_def list_all_iff)
  then have "map_of (selection_by_node_id t) c \<noteq> None"
    using allocation_ok_lookup_iff[OF ok, of c] by (simp add: template_node_by_id_None_iff)
  then obtain cs_sel where c: "map_of (selection_by_node_id t) c = Some cs_sel" by auto
  have "node_reference cs_sel \<in> set (nodes (tree_template t))"
    using allocation_ok_node_in_template[OF ok c] .
  then have "\<forall>p \<in> set (parent_nodes (node_reference cs_sel)).
      p \<in> set (map node_id (nodes (tree_template t)))"
    using refs by (auto simp: template_refs_ok_def list_all_iff)
  then have "\<forall>p \<in> set (parent_nodes (node_reference cs_sel)).
      map_of (selection_by_node_id t) p \<noteq> None"
    using allocation_ok_lookup_iff[OF ok] by (simp add: template_node_by_id_None_iff)
  with c show "\<exists>child_selection. map_of (selection_by_node_id t) c = Some child_selection \<and>
        (\<forall>p \<in> set (parent_nodes (node_reference child_selection)).
            p \<noteq> nid \<longrightarrow> map_of (selection_by_node_id t) p \<noteq> None)"
    by blast
qed

lemma check_gates_cases:
  "check_gates G spent run gs = Inr () \<or> check_gates G spent run gs = Inl DecrementNotPossible"
  by (induction gs arbitrary: run) (auto simp: Let_def)

text \<open>The body of the check, on a known node of a well-formed allocation.\<close>

lemma can_node_be_decremented_body_eq:
  assumes ok: "allocation_ok t" and refs: "template_refs_ok (tree_template t)"
    and s: "map_of (selection_by_node_id t) nid = Some s"
  shows "can_node_be_decremented_body t nid c =
     (if \<not> holds_talent_points s then Inl DecrementNotPossible
      else if c \<notin> set (get_choice_indices_with_points s) then Inl DecrementNotPossible
      else if \<not> violates_single_choice_rule s \<and>
              (\<exists>ch \<in> set (child_nodes (node_reference s)). stranded_child t nid ch)
      then Inl DecrementNotPossible
      else check_gates (node_gate_id (node_reference s)) (spent_points_by_gate t) 0
             (sort_key gate_id (gates (gate_info (tree_template t)))))"
proof -
  have tn: "template_node_by_id (tree_template t) nid = Some (node_reference s)"
    using allocation_ok_template_node[OF ok s] .
  have "child_refs_known t nid (child_nodes (node_reference s))"
    using child_refs_known_template[OF ok refs allocation_ok_node_in_template[OF ok s]] .
  note cc = check_child_nodes_eq[OF this]
  show ?thesis
    by (simp add: can_node_be_decremented_body_def s tn cc)
qed

lemma can_node_be_decremented_unknown:
  "map_of (selection_by_node_id t) nid = None \<Longrightarrow> can_node_be_decremented t nid c = Inl ValueError"
  by (simp add: can_node_be_decremented_def can_node_be_decremented_body_def)

lemma can_node_be_decremented_eq:
  assumes ok: "allocation_ok t" and refs: "template_refs_ok (tree_template t)"
    and s: "map_of (selection_by_node_id t) nid = Some s"
  shows "can_node_be_decremented t nid c =
     Inr (holds_talent_points s \<and> c \<in> set (get_choice_indices_with_points s) \<and>
          (violates_single_choice_rule s \<or>
             \<not> (\<exists>ch \<in> set (child_nodes (node_reference s)). stranded_child t nid ch)) \<and>
          check_gates (node_gate_id (node_reference s)) (spent_points_by_gate t) 0
             (sort_key gate_id (gates (gate_info (tree_template t)))) = Inr ())"
  using check_gates_cases[of "node_gate_id (node_reference s)" "spent_points_by_gate t" 0
      "sort_key gate_id (gates (gate_info (tree_template t)))"]
  unfolding can_node_be_decremented_def can_node_be_decremented_body_eq[OF ok refs s]
  by auto

lemma in_choice_indices_iff:
  "c \<in> set (get_choice_indices_with_points s) \<longleftrightarrow>
     0 \<le> c \<and> nat c < length (points_spent_by_choice_index s) \<and>
     points_spent_by_choice_index s ! nat c > 0"
  by (auto simp: get_choice_indices_with_points_def in_set_enumerate_eq image_iff
      intro!: bexI[of _ "(nat c, points_spent_by_choice_index s ! nat c)"])

lemma distinct_choice_indices: "distinct (get_choice_indices_with_points s)"
proof -
  have "distinct (map fst (filter (\<lambda>(i, points). points > 0)
      (enumerate 0 (points_spent_by_choice_index s))))"
    by (rule distinct_map_filter) simp
  then have "distinct (map int (map fst (filter (\<lambda>(i, points). points > 0)
      (enumerate 0 (points_spent_by_choice_index s)))))"
    by (simp add: distinct_map inj_on_def)
  then show ?thesis
    by (simp add: get_choice_indices_with_points_def case_prod_unfold comp_def)
qed

lemma check_gates_blocked:
  assumes "H \<in> set gs" and "gate_id H > G"
    and "points_required_below H \<ge>
           run + sum_list (map (\<lambda>g. spent (gate_id g)) (takeWhile (\<lambda>g. g \<noteq> H) gs))"
  shows "check_gates G spent run gs = Inl DecrementNotPossible"
  using assms
proof (induction gs arbitrary: run)
  case Nil
  then show ?case by simp
next
  case (Cons g gs)
  show ?case
  proof (cases "g = H")
    case True
    with Cons.prems show ?thesis by (simp add: Let_def)
  next
    case False
    with Cons.prems have "H \<in> set gs" by simp
    moreover have "points_required_below H \<ge>
        (run + spent (gate_id g)) +
          sum_list (map (\<lambda>g. spent (gate_id g)) (takeWhile (\<lambda>g. g \<noteq> H) gs))"
      using Cons.prems(3) False by (simp add: add.assoc)
    ultimately have "check_gates G spent (run + spent (gate_id g)) gs = Inl DecrementNotPossible"
      using Cons.prems(2) by (intro Cons.IH)
    then show ?thesis by (simp add: Let_def)
  qed
qed

lemma takeWhile_sorted_distinct:
  assumes "sorted (map f xs)" and "distinct (map f xs)" and "h \<in> set xs"
  shows "takeWhile (\<lambda>x. x \<noteq> h) xs = filter (\<lambda>x. f x < (f h :: int)) xs"
  using assms
proof (induction xs)
  case Nil
  then show ?case by simp
next
  case (Cons a xs)
  show ?case
  proof (cases "a = h")
    case True
    have "\<forall>x \<in> set xs. \<not> f x < f h" using Cons.prems(1) True by auto
    then have "filter (\<lambda>x. f x < f h) xs = []" by (simp add: filter_empty_conv)
    with True show ?thesis by simp
  next
    case False
    with Cons.prems have h: "h \<in> set xs" by simp
    then have "f a \<le> f h" using Cons.prems(1) by auto
    moreover have "f a \<noteq> f h" using Cons.prems(2) h by auto
    ultimately have "f a < f h" by simp
    moreover have "takeWhile (\<lambda>x. x \<noteq> h) xs = filter (\<lambda>x. f x < f h) xs"
      using Cons.prems h by (intro Cons.IH) auto
    ultimately show ?thesis using False by simp
  qed
qed

lemma sum_list_filter_sort_key:
  "sum_list (map \<phi> (filter P (sort_key f xs))) = (sum_list (map \<phi> (filter P xs)) :: int)"
proof -
  have "mset (map \<phi> (filter P (sort_key f xs))) = mset (map \<phi> (filter P xs))"
    by (simp add: mset_filter)
  then show ?thesis by (metis sum_mset_sum_list)
qed

lemma sum_list_indicator:
  assumes "distinct (map f xs)"
  shows "sum_list (map (\<lambda>x. if f x = a then v else 0) (filter P xs)) =
     (if \<exists>x \<in> set xs. f x = a \<and> P x then v else (0::int))"
  using assms by (induction xs) (auto simp: image_iff)

lemma sum_list_gate_sum:
  assumes "distinct (map gate_id gs)"
    and "\<forall>(k, s) \<in> set al. node_gate_id (node_reference s) \<in> gate_id ` set gs"
  shows "sum_list (map (\<lambda>g. gate_sum al (gate_id g)) (filter (\<lambda>g. gate_id g < h) gs)) =
     sum_list (map (\<lambda>(nid, s). sum_list (points_spent_by_choice_index s))
       (filter (\<lambda>(nid, s). node_gate_id (node_reference s) < h) al))"
  using assms(2)
proof (induction al)
  case Nil
  then show ?case by simp
next
  case (Cons a al)
  obtain k s where a: "a = (k, s)" by (cases a)
  let ?v = "sum_list (points_spent_by_choice_index s)"
  let ?gs = "filter (\<lambda>g. gate_id g < h) gs"
  have mem: "node_gate_id (node_reference s) \<in> gate_id ` set gs" using Cons.prems a by auto
  have "sum_list (map (\<lambda>g. gate_sum (a # al) (gate_id g)) ?gs) =
      sum_list (map (\<lambda>g. (if gate_id g = node_gate_id (node_reference s) then ?v else 0)
                            + gate_sum al (gate_id g)) ?gs)"
    by (simp add: a gate_sum_Cons eq_commute cong: if_cong)
  also have "\<dots> = sum_list (map (\<lambda>g. if gate_id g = node_gate_id (node_reference s) then ?v else 0) ?gs)
      + sum_list (map (\<lambda>g. gate_sum al (gate_id g)) ?gs)"
    by (simp add: sum_list_addf)
  also have "sum_list (map (\<lambda>g. if gate_id g = node_gate_id (node_reference s) then ?v else 0) ?gs) =
      (if node_gate_id (node_reference s) < h then ?v else 0)"
    using mem by (auto simp: sum_list_indicator[OF assms(1)])
  also have "sum_list (map (\<lambda>g. gate_sum al (gate_id g)) ?gs) =
      sum_list (map (\<lambda>(nid, s). sum_list (points_spent_by_choice_index s))
       (filter (\<lambda>(nid, s). node_gate_id (node_reference s) < h) al))"
    using Cons.prems by (intro Cons.IH) auto
  finally show ?case by (simp add: a)
qed

lemma running_total_points_below:
  assumes ok: "allocation_ok t" and gok: "gates_ok (tree_template t)"
    and cons: "gate_totals_consistent t"
    and H: "H \<in> set (gates (gate_info (tree_template t)))"
  shows "sum_list (map (\<lambda>g. spent_points_by_gate t (gate_id g))
           (takeWhile (\<lambda>g. g \<noteq> H) (sort_key gate_id (gates (gate_info (tree_template t)))))) =
         points_below t (gate_id H)"
proof -
  let ?gs = "gates (gate_info (tree_template t))"
  have d: "distinct (map gate_id ?gs)" using gok by (simp add: gates_ok_def)
  have "mset (map gate_id (sort_key gate_id ?gs)) = mset (map gate_id ?gs)" by simp
  then have d': "distinct (map gate_id (sort_key gate_id ?gs))"
    using d by (metis distinct_count_atmost_1 set_mset_mset)
  have tw: "takeWhile (\<lambda>g. g \<noteq> H) (sort_key gate_id ?gs) =
      filter (\<lambda>g. gate_id g < gate_id H) (sort_key gate_id ?gs)"
    by (rule takeWhile_sorted_distinct) (use d' H in simp_all)
  have nodes: "\<forall>(k, s) \<in> set (selection_by_node_id t).
      node_gate_id (node_reference s) \<in> gate_id ` set ?gs"
  proof (clarify)
    fix k s assume "(k, s) \<in> set (selection_by_node_id t)"
    then have "map_of (selection_by_node_id t) k = Some s"
      using allocation_ok_distinct[OF ok] by simp
    then have "node_reference s \<in> set (nodes (tree_template t))"
      by (rule allocation_ok_node_in_template[OF ok])
    then show "node_gate_id (node_reference s) \<in> gate_id ` set ?gs"
      using gok by (auto simp: gates_ok_def list_all_iff)
  qed
  have "sum_list (map (\<lambda>g. spent_points_by_gate t (gate_id g))
           (takeWhile (\<lambda>g. g \<noteq> H) (sort_key gate_id ?gs))) =
        sum_list (map (\<lambda>g. gate_sum (selection_by_node_id t) (gate_id g))
           (filter (\<lambda>g. gate_id g < gate_id H) ?gs))"
    using cons
    by (simp add: tw sum_list_filter_sort_key gate_totals_consistent_def points_in_gate_def)
  also have "\<dots> = points_below t (gate_id H)"
    unfolding points_below_def by (rule sum_list_gate_sum[OF d nodes])
  finally show ?thesis .
qed

section \<open>Gate support (C1), dependency preservation (C2), failure signalling (C8)\<close>

text \<open>
  Claim C1. Take an allocation over a template whose references resolve and whose gates are
  well formed, with consistent gate totals, and a node \<open>nid\<close> of it. If some
  gate \<open>H\<close> with an id greater than the node's gate id has a threshold that is
  at least the points committed to the nodes below \<open>H\<close>, then
  \<open>can_node_be_decremented\<close> returns \<open>False\<close> for every choice index:
  the checker accepts no removal from a node below such a gate.
\<close>

theorem gate_support_blocks_removal:
  assumes "allocation_ok t" and "template_refs_ok (tree_template t)"
    and "gates_ok (tree_template t)" and "gate_totals_consistent t"
    and "map_of (selection_by_node_id t) nid = Some s"
    and "H \<in> set (gates (gate_info (tree_template t)))"
    and "gate_id H > node_gate_id (node_reference s)"
    and "points_required_below H \<ge> points_below t (gate_id H)"
  shows "can_node_be_decremented t nid c = Inr False"
proof -
  let ?gs = "sort_key gate_id (gates (gate_info (tree_template t)))"
  have "H \<in> set ?gs" using assms(6) by simp
  moreover have "points_required_below H \<ge>
      0 + sum_list (map (\<lambda>g. spent_points_by_gate t (gate_id g)) (takeWhile (\<lambda>g. g \<noteq> H) ?gs))"
    using assms(8) running_total_points_below[OF assms(1,3,4,6)] by simp
  ultimately have "check_gates (node_gate_id (node_reference s)) (spent_points_by_gate t) 0 ?gs
      = Inl DecrementNotPossible"
    using assms(7) by (intro check_gates_blocked)
  then show ?thesis
    by (simp add: can_node_be_decremented_eq[OF assms(1,2,5)])
qed

lemma template_refs_ok_example: "template_refs_ok example_template"
  by (simp add: template_refs_ok_def example_template_def example_node_a_def example_node_b_def)

lemma gates_ok_example: "gates_ok example_template"
  by (simp add: gates_ok_def example_template_def example_node_a_def example_node_b_def)

lemma tree_template_example [simp]: "tree_template (example_allocation pa pb spent) = example_template"
  by (simp add: example_allocation_def)

theorem gate_support_blocks_removal_witness:
  "allocation_ok example_at_threshold \<and> template_refs_ok (tree_template example_at_threshold) \<and>
   gates_ok (tree_template example_at_threshold) \<and> gate_totals_consistent example_at_threshold \<and>
   map_of (selection_by_node_id example_at_threshold) ''a'' =
     Some \<lparr>node_reference = example_node_a, points_spent_by_choice_index = [2, 0]\<rparr> \<and>
   \<lparr>gate_id = 1, points_required_below = 2\<rparr> \<in> set (gates (gate_info (tree_template example_at_threshold))) \<and>
   points_below example_at_threshold 1 = 2 \<and>
   can_node_be_decremented example_at_threshold ''a'' 0 = Inr False"
proof -
  have ok: "allocation_ok example_at_threshold"
    by (simp add: example_at_threshold_def allocation_ok_example)
  have refs: "template_refs_ok (tree_template example_at_threshold)"
    by (simp add: example_at_threshold_def template_refs_ok_example)
  have gok: "gates_ok (tree_template example_at_threshold)"
    by (simp add: example_at_threshold_def gates_ok_example)
  have cons: "gate_totals_consistent example_at_threshold"
    by (simp add: gate_totals_consistent_def points_in_gate_def gate_sum_def
        example_at_threshold_def example_allocation_def example_template_def example_node_a_def example_node_b_def)
  have s: "map_of (selection_by_node_id example_at_threshold) ''a'' =
     Some \<lparr>node_reference = example_node_a, points_spent_by_choice_index = [2, 0]\<rparr>"
    by (simp add: example_at_threshold_def example_allocation_def)
  have H: "\<lparr>gate_id = 1, points_required_below = 2\<rparr> \<in> set (gates (gate_info (tree_template example_at_threshold)))"
    by (simp add: example_at_threshold_def example_template_def example_node_a_def example_node_b_def)
  have pb: "points_below example_at_threshold 1 = 2"
    by (simp add: points_below_def example_at_threshold_def example_allocation_def example_template_def example_node_a_def example_node_b_def)
  have "can_node_be_decremented example_at_threshold ''a'' 0 = Inr False"
    by (rule gate_support_blocks_removal[OF ok refs gok cons s H])
      (simp_all add: pb, simp add: example_template_def example_node_a_def example_node_b_def)
  with ok refs gok cons s H pb show ?thesis by simp
qed

lemma holds_talent_points_iff: "holds_talent_points s \<longleftrightarrow> holds_some_points s"
  unfolding holds_talent_points_def holds_some_points_def list_ex_iff
  by (metis in_set_conv_nth)

lemma has_fully_skilled_choice_iff: "has_fully_skilled_choice s \<longleftrightarrow> some_choice_at_maximum s"
proof
  assume "has_fully_skilled_choice s"
  then obtain i where "i < length (choices (node_reference s))"
    "i < length (points_spent_by_choice_index s)"
    "max_points (choices (node_reference s) ! i) = points_spent_by_choice_index s ! i"
    by (auto simp: has_fully_skilled_choice_def list_ex_iff set_zip)
  then show "some_choice_at_maximum s"
    unfolding some_choice_at_maximum_def by (intro exI[of _ i]) simp
next
  assume "some_choice_at_maximum s"
  then obtain i where i: "i < length (choices (node_reference s))"
    "i < length (points_spent_by_choice_index s)"
    "points_spent_by_choice_index s ! i = max_points (choices (node_reference s) ! i)"
    unfolding some_choice_at_maximum_def by blast
  then have "(choices (node_reference s) ! i, points_spent_by_choice_index s ! i)
      \<in> set (zip (choices (node_reference s)) (points_spent_by_choice_index s))"
    unfolding set_zip by (intro CollectI exI[of _ i]) simp
  then show "has_fully_skilled_choice s"
    unfolding has_fully_skilled_choice_def list_ex_iff using i(3) by force
qed

lemma filter_length_gt_one:
  "1 < length (filter P xs) \<longleftrightarrow> (\<exists>i j. i < j \<and> j < length xs \<and> P (xs ! i) \<and> P (xs ! j))"
proof (induction xs)
  case Nil
  then show ?case by simp
next
  case (Cons x xs)
  have ne: "filter P xs \<noteq> [] \<longleftrightarrow> (\<exists>k < length xs. P (xs ! k))"
    unfolding filter_empty_conv by (metis in_set_conv_nth)
  have split: "(\<exists>i j. i < j \<and> j < length (x # xs) \<and> P ((x # xs) ! i) \<and> P ((x # xs) ! j)) \<longleftrightarrow>
      (P x \<and> (\<exists>k < length xs. P (xs ! k))) \<or>
      (\<exists>i j. i < j \<and> j < length xs \<and> P (xs ! i) \<and> P (xs ! j))"
    (is "?L \<longleftrightarrow> ?A \<or> ?B")
  proof
    assume ?L
    then obtain i j where ij: "i < j" "j < length (x # xs)" "P ((x # xs) ! i)" "P ((x # xs) ! j)"
      by blast
    then obtain j' where j': "j = Suc j'" by (cases j) auto
    show "?A \<or> ?B"
    proof (cases i)
      case 0
      with ij j' have "P x" "j' < length xs" "P (xs ! j')" by auto
      then show ?thesis by blast
    next
      case (Suc i')
      with ij j' have "i' < j'" "j' < length xs" "P (xs ! i')" "P (xs ! j')" by auto
      then show ?thesis by blast
    qed
  next
    assume "?A \<or> ?B"
    then show ?L
    proof
      assume ?A
      then obtain k where "P x" "k < length xs" "P (xs ! k)" by blast
      then have "0 < Suc k \<and> Suc k < length (x # xs) \<and> P ((x # xs) ! 0) \<and> P ((x # xs) ! Suc k)"
        by simp
      then show ?L by blast
    next
      assume ?B
      then obtain i j where "i < j" "j < length xs" "P (xs ! i)" "P (xs ! j)" by blast
      then have "Suc i < Suc j \<and> Suc j < length (x # xs) \<and> P ((x # xs) ! Suc i) \<and> P ((x # xs) ! Suc j)"
        by simp
      then show ?L by blast
    qed
  qed
  show ?case
  proof (cases "P x")
    case True
    have B_imp: "?B \<Longrightarrow> (\<exists>k < length xs. P (xs ! k))" by blast
    have "1 < length (filter P (x # xs)) \<longleftrightarrow> filter P xs \<noteq> []"
      using True by (cases "filter P xs") auto
    also have "\<dots> \<longleftrightarrow> (\<exists>k < length xs. P (xs ! k))" by (rule ne)
    also have "\<dots> \<longleftrightarrow> ?A \<or> ?B" using True B_imp by blast
    finally show ?thesis using split by simp
  next
    case False
    then show ?thesis using split Cons.IH by simp
  qed
qed

lemma violates_single_choice_rule_iff:
  "violates_single_choice_rule s \<longleftrightarrow> points_in_several_choices s"
  unfolding violates_single_choice_rule_def points_in_several_choices_def
  using filter_length_gt_one[of "\<lambda>points. points > 0" "points_spent_by_choice_index s"]
  by simp

lemma other_parent_fully_skilled_iff:
  "other_parent_fully_skilled t nid cs \<longleftrightarrow> alternative_parent t nid cs"
  by (auto simp: other_parent_fully_skilled_def alternative_parent_def list_ex_iff
      has_fully_skilled_choice_iff split: option.splits)

lemma stranded_child_iff: "stranded_child t nid ch \<longleftrightarrow> dependent_child t nid ch"
  by (auto simp: stranded_child_def dependent_child_def holds_talent_points_iff
      other_parent_fully_skilled_iff split: option.splits)

text \<open>
  Claim C2. Let choice \<open>c\<close> of node \<open>nid\<close> hold a point. If the node
  is not in the violating state and some child of it holds points while no parent of that
  child other than the node has a choice at its maximum, the check returns
  \<open>False\<close>. Conversely, if the node is in the violating state, or every child
  that holds points has another parent with a choice at its maximum, the loop over the
  children raises nothing and the answer of the check is the answer of the scan of the
  gates. The conditions are those of the specification, not the methods of the code.
\<close>

theorem dependency_preservation:
  assumes "allocation_ok t" and "template_refs_ok (tree_template t)"
    and "map_of (selection_by_node_id t) nid = Some s"
    and "choice_holds_point t nid c"
  shows "(\<not> points_in_several_choices s \<and>
          (\<exists>ch \<in> set (child_nodes (node_reference s)). dependent_child t nid ch)
            \<longrightarrow> can_node_be_decremented t nid c = Inr False) \<and>
         (points_in_several_choices s \<or>
          (\<forall>ch \<in> set (child_nodes (node_reference s)). \<not> dependent_child t nid ch)
            \<longrightarrow> check_child_nodes t nid (violates_single_choice_rule s)
                   (child_nodes (node_reference s)) = Inr () \<and>
                can_node_be_decremented t nid c =
                  Inr (check_gates (node_gate_id (node_reference s)) (spent_points_by_gate t) 0
                         (sort_key gate_id (gates (gate_info (tree_template t)))) = Inr ()))"
proof -
  have c: "c \<in> set (get_choice_indices_with_points s)"
    using assms(3,4) by (auto simp: choice_holds_point_def in_choice_indices_iff)
  then have "\<exists>p \<in> set (points_spent_by_choice_index s). p \<noteq> 0"
    by (auto simp: in_choice_indices_iff intro!: bexI[of _ "points_spent_by_choice_index s ! nat c"])
  then have h: "holds_talent_points s"
    by (simp add: holds_talent_points_def list_ex_iff)
  have cc: "check_child_nodes t nid (violates_single_choice_rule s) (child_nodes (node_reference s)) =
     (if \<not> violates_single_choice_rule s \<and>
         (\<exists>ch \<in> set (child_nodes (node_reference s)). stranded_child t nid ch)
      then Inl DecrementNotPossible else Inr ())"
    by (rule check_child_nodes_eq)
      (rule child_refs_known_template[OF assms(1,2) allocation_ok_node_in_template[OF assms(1,3)]])
  show ?thesis
    using c h cc
    unfolding violates_single_choice_rule_iff[symmetric] stranded_child_iff[symmetric]
    by (auto simp: can_node_be_decremented_eq[OF assms(1,2,3)])
qed

lemma allocation_ok_fork:
  "length pp = 2 \<Longrightarrow> length pq = 1 \<Longrightarrow> length pc = 1 \<Longrightarrow> allocation_ok (fork_allocation pp pq pc)"
  by (simp add: allocation_ok_def get_empty_selections_dict_def
      PlayerTalentNodeSelection_init_def fork_template_def fork_allocation_def empty_selection_def
      fork_node_p_def fork_node_q_def fork_node_c_def)

lemma template_refs_ok_fork: "template_refs_ok (tree_template (fork_allocation pp pq pc))"
  by (simp add: template_refs_ok_def fork_template_def fork_allocation_def
      fork_node_p_def fork_node_q_def fork_node_c_def)

lemma fork_lookup:
  "map_of (selection_by_node_id (fork_allocation pp pq pc)) ''p'' =
     Some \<lparr>node_reference = fork_node_p, points_spent_by_choice_index = pp\<rparr>"
  "map_of (selection_by_node_id (fork_allocation pp pq pc)) ''q'' =
     Some \<lparr>node_reference = fork_node_q, points_spent_by_choice_index = pq\<rparr>"
  "map_of (selection_by_node_id (fork_allocation pp pq pc)) ''c'' =
     Some \<lparr>node_reference = fork_node_c, points_spent_by_choice_index = pc\<rparr>"
  by (simp_all add: fork_allocation_def)

lemma fork_node_fields:
  "child_nodes fork_node_p = [''c'']" "node_gate_id fork_node_p = 0"
  "parent_nodes fork_node_c = [''p'', ''q'']"
  "choices fork_node_q = [\<lparr>talent_name = ''qa'', max_points = 2\<rparr>]"
  by (simp_all add: fork_node_p_def fork_node_q_def fork_node_c_def)

lemma fork_gates:
  "check_gates 0 (spent_points_by_gate (fork_allocation pp pq pc)) 0
     (sort_key gate_id (gates (gate_info (tree_template (fork_allocation pp pq pc))))) = Inr ()"
  by (simp add: fork_allocation_def fork_template_def)

lemma fork_points_several:
  "\<not> points_in_several_choices \<lparr>node_reference = n, points_spent_by_choice_index = [1, 0]\<rparr>"
  "points_in_several_choices \<lparr>node_reference = n, points_spent_by_choice_index = [1, 1]\<rparr>"
proof -
  show "\<not> points_in_several_choices \<lparr>node_reference = n, points_spent_by_choice_index = [1, 0]\<rparr>"
    unfolding violates_single_choice_rule_iff[symmetric]
    by (simp add: violates_single_choice_rule_def)
  show "points_in_several_choices \<lparr>node_reference = n, points_spent_by_choice_index = [1, 1]\<rparr>"
    unfolding violates_single_choice_rule_iff[symmetric]
    by (simp add: violates_single_choice_rule_def)
qed

lemma fork_some_choice_at_maximum_q:
  "some_choice_at_maximum \<lparr>node_reference = fork_node_q, points_spent_by_choice_index = [x]\<rparr>
     \<longleftrightarrow> x = 2"
  unfolding has_fully_skilled_choice_iff[symmetric]
  by (auto simp: has_fully_skilled_choice_def fork_node_fields)

lemma fork_dependent_child:
  "dependent_child (fork_allocation pp [x] [1]) ''p'' ''c'' \<longleftrightarrow> x \<noteq> 2"
  by (simp add: dependent_child_def alternative_parent_def fork_lookup fork_node_fields
      fork_some_choice_at_maximum_q holds_some_points_def)

theorem dependency_preservation_witness:
  "allocation_ok (fork_allocation [1, 0] [1] [1]) \<and>
   template_refs_ok (tree_template (fork_allocation [1, 0] [1] [1])) \<and>
   choice_holds_point (fork_allocation [1, 0] [1] [1]) ''p'' 0 \<and>
   dependent_child (fork_allocation [1, 0] [1] [1]) ''p'' ''c'' \<and>
   can_node_be_decremented (fork_allocation [1, 0] [1] [1]) ''p'' 0 = Inr False \<and>
   allocation_ok (fork_allocation [1, 0] [2] [1]) \<and>
   choice_holds_point (fork_allocation [1, 0] [2] [1]) ''p'' 0 \<and>
   \<not> dependent_child (fork_allocation [1, 0] [2] [1]) ''p'' ''c'' \<and>
   can_node_be_decremented (fork_allocation [1, 0] [2] [1]) ''p'' 0 = Inr True \<and>
   allocation_ok (fork_allocation [1, 1] [1] [1]) \<and>
   choice_holds_point (fork_allocation [1, 1] [1] [1]) ''p'' 0 \<and>
   dependent_child (fork_allocation [1, 1] [1] [1]) ''p'' ''c'' \<and>
   can_node_be_decremented (fork_allocation [1, 1] [1] [1]) ''p'' 0 = Inr True"
proof -
  have ok: "allocation_ok (fork_allocation [1, 0] [1] [1])"
    "allocation_ok (fork_allocation [1, 0] [2] [1])"
    "allocation_ok (fork_allocation [1, 1] [1] [1])"
    by (simp_all add: allocation_ok_fork)
  have hp: "choice_holds_point (fork_allocation [1, 0] [1] [1]) ''p'' 0"
    "choice_holds_point (fork_allocation [1, 0] [2] [1]) ''p'' 0"
    "choice_holds_point (fork_allocation [1, 1] [1] [1]) ''p'' 0"
    by (simp_all add: choice_holds_point_def fork_lookup)
  have dc: "dependent_child (fork_allocation [1, 0] [1] [1]) ''p'' ''c''"
    "\<not> dependent_child (fork_allocation [1, 0] [2] [1]) ''p'' ''c''"
    "dependent_child (fork_allocation [1, 1] [1] [1]) ''p'' ''c''"
    by (simp_all add: fork_dependent_child)
  have a: "can_node_be_decremented (fork_allocation [1, 0] [1] [1]) ''p'' 0 = Inr False"
    using dependency_preservation[OF ok(1) template_refs_ok_fork fork_lookup(1) hp(1)]
    by (simp add: fork_points_several fork_node_fields dc)
  have b: "can_node_be_decremented (fork_allocation [1, 0] [2] [1]) ''p'' 0 = Inr True"
    using dependency_preservation[OF ok(2) template_refs_ok_fork fork_lookup(1) hp(2)]
    by (simp add: fork_points_several fork_node_fields dc fork_gates)
  have c: "can_node_be_decremented (fork_allocation [1, 1] [1] [1]) ''p'' 0 = Inr True"
    using dependency_preservation[OF ok(3) template_refs_ok_fork fork_lookup(1) hp(3)]
    by (simp add: fork_points_several fork_node_fields dc fork_gates)
  show ?thesis
    using ok hp dc a b c by (simp add: template_refs_ok_fork)
qed

text \<open>
  Claim C8, as amended. An unknown node id makes the check raise \<open>ValueError\<close>.
  For a known node id the check returns a boolean and raises nothing, and for a choice
  index out of range it returns \<open>False\<close>, as for every choice that holds no
  point.
\<close>

theorem legality_failure_signalling:
  "(map_of (selection_by_node_id t) nid = None \<longrightarrow>
      can_node_be_decremented t nid c = Inl ValueError) \<and>
   (allocation_ok t \<and> template_refs_ok (tree_template t) \<and>
    map_of (selection_by_node_id t) nid = Some s \<longrightarrow>
      (\<exists>b. can_node_be_decremented t nid c = Inr b) \<and>
      (c < 0 \<or> c \<ge> int (length (choices (node_reference s)))
         \<longrightarrow> can_node_be_decremented t nid c = Inr False))"
proof (intro conjI impI)
  assume "map_of (selection_by_node_id t) nid = None"
  then show "can_node_be_decremented t nid c = Inl ValueError"
    by (rule can_node_be_decremented_unknown)
next
  assume a: "allocation_ok t \<and> template_refs_ok (tree_template t) \<and>
    map_of (selection_by_node_id t) nid = Some s"
  then show "\<exists>b. can_node_be_decremented t nid c = Inr b"
    using can_node_be_decremented_eq[of t nid s c] by simp
  assume "c < 0 \<or> c \<ge> int (length (choices (node_reference s)))"
  moreover have "length (points_spent_by_choice_index s) = length (choices (node_reference s))"
    using a allocation_ok_length by blast
  ultimately have "c \<notin> set (get_choice_indices_with_points s)"
    by (auto simp: in_choice_indices_iff)
  then show "can_node_be_decremented t nid c = Inr False"
    using a can_node_be_decremented_eq[of t nid s c] by simp
qed

theorem legality_failure_signalling_witness:
  "map_of (selection_by_node_id example_seed) ''zz'' = None \<and>
   allocation_ok example_seed \<and> template_refs_ok (tree_template example_seed) \<and>
   map_of (selection_by_node_id example_seed) ''a'' =
     Some \<lparr>node_reference = example_node_a, points_spent_by_choice_index = [2, 1]\<rparr> \<and>
   (5::int) \<ge> int (length (choices (example_node_a))) \<and>
   can_node_be_decremented example_seed ''zz'' 5 = Inl ValueError \<and>
   can_node_be_decremented example_seed ''a'' 5 = Inr False"
proof -
  have a: "map_of (selection_by_node_id example_seed) ''zz'' = None"
    "map_of (selection_by_node_id example_seed) ''a'' =
     Some \<lparr>node_reference = example_node_a, points_spent_by_choice_index = [2, 1]\<rparr>"
    by (simp_all add: example_seed_def example_allocation_def)
  have ok: "allocation_ok example_seed" "template_refs_ok (tree_template example_seed)"
    by (simp_all add: example_seed_def allocation_ok_example template_refs_ok_example)
  have l: "(5::int) \<ge> int (length (choices (example_node_a)))"
    by (simp add: example_template_def example_node_a_def example_node_b_def)
  from legality_failure_signalling[where t = example_seed and nid = "''zz''" and c = 5]
    legality_failure_signalling[where t = example_seed and nid = "''a''" and c = 5
      and s = "\<lparr>node_reference = example_node_a, points_spent_by_choice_index = [2, 1]\<rparr>"]
  show ?thesis using a ok l by simp
qed

text \<open>
  Claim C8 as stated fails: node \<open>a\<close> has two choices, and the check with
  choice index 5 returns \<open>False\<close> instead of raising.
\<close>

theorem out_of_range_choice_index_counterexample:
  "(5::int) \<ge> int (length (choices (example_node_a))) \<and>
   map_of (selection_by_node_id example_seed) ''a'' =
     Some \<lparr>node_reference = example_node_a, points_spent_by_choice_index = [2, 1]\<rparr> \<and>
   can_node_be_decremented example_seed ''a'' 5 = Inr False"
  by (simp add: can_node_be_decremented_def can_node_be_decremented_body_def
      holds_talent_points_def get_choice_indices_with_points_def
      example_seed_def example_allocation_def example_template_def example_node_a_def example_node_b_def)

section \<open>The candidate removals (C5)\<close>

lemma mset_shuffle_with [simp]: "mset (shuffle_with rs xs) = mset xs"
proof (induction xs arbitrary: rs)
  case Nil
  then show ?case by simp
next
  case (Cons x xs)
  let ?ys = "shuffle_with (tl rs) xs"
  have "mset (take j ?ys @ x # drop j ?ys) = mset (x # xs)" for j
  proof -
    have "mset (take j ?ys @ x # drop j ?ys) = add_mset x (mset (take j ?ys @ drop j ?ys))"
      by (simp only: mset_append mset.simps union_mset_add_mset_right)
    also have "\<dots> = add_mset x (mset ?ys)" by (simp only: append_take_drop_id)
    finally show ?thesis by (simp add: Cons.IH)
  qed
  then show ?case by (simp add: Let_def)
qed

lemma set_shuffle_with [simp]: "set (shuffle_with rs xs) = set xs"
  by (metis mset_shuffle_with set_mset_mset)

lemma distinct_shuffle_with [simp]: "distinct (shuffle_with rs xs) = distinct xs"
  by (metis mset_shuffle_with distinct_count_atmost_1 set_mset_mset)

lemma length_shuffle_with [simp]: "length (shuffle_with rs xs) = length xs"
  by (metis mset_shuffle_with size_mset)

lemma shuffle_with_surj:
  "mset ys = mset xs \<Longrightarrow> \<exists>rs. shuffle_with rs xs = ys"
proof (induction xs arbitrary: ys)
  case Nil
  then show ?case by simp
next
  case (Cons x xs)
  then have "x \<in> set ys" by (metis list.set_intros(1) set_mset_mset)
  then obtain as bs where ys: "ys = as @ x # bs" by (meson split_list)
  with Cons.prems have "mset (as @ bs) = mset xs" by simp
  from Cons.IH[OF this] obtain rs where rs: "shuffle_with rs xs = as @ bs" ..
  have "shuffle_with (length as # rs) (x # xs) = ys"
    by (simp add: rs ys Let_def)
  then show ?case ..
qed

lemma check_choices_eq:
  assumes "\<forall>c \<in> set cs. \<exists>b. can_node_be_decremented t nid c = Inr b"
  shows "check_choices t nid cs =
     Inr (map (Pair nid) (filter (\<lambda>c. can_node_be_decremented t nid c = Inr True) cs))"
  using assms
proof (induction cs)
  case Nil
  then show ?case by simp
next
  case (Cons c cs)
  then obtain b where "can_node_be_decremented t nid c = Inr b" by auto
  with Cons show ?case by auto
qed

lemma find_candidates_loop_ok:
  assumes ok: "allocation_ok t" and refs: "template_refs_ok (tree_template t)"
    and "set ids \<subseteq> set (map fst (selection_by_node_id t))" and "distinct ids"
  shows "\<exists>cands. find_candidates_loop rng t ids k = Inr (cands, k + length ids) \<and>
           set cands = {(nid, c). nid \<in> set ids \<and> can_node_be_decremented t nid c = Inr True} \<and>
           distinct cands"
  using assms(3,4)
proof (induction ids arbitrary: k)
  case Nil
  then show ?case by simp
next
  case (Cons nid ids)
  from Cons.prems have "map_of (selection_by_node_id t) nid \<noteq> None"
    by (simp add: map_of_eq_None_iff)
  then obtain s where s: "map_of (selection_by_node_id t) nid = Some s" by auto
  let ?cs = "shuffle_with (rng k) (get_choice_indices_with_points s)"
  have "\<forall>c \<in> set ?cs. \<exists>b. can_node_be_decremented t nid c = Inr b"
    using can_node_be_decremented_eq[OF ok refs s] by simp
  note cc = check_choices_eq[OF this]
  let ?found = "map (Pair nid) (filter (\<lambda>c. can_node_be_decremented t nid c = Inr True) ?cs)"
  from Cons.IH[of "Suc k"] Cons.prems obtain others where
    r: "find_candidates_loop rng t ids (Suc k) = Inr (others, Suc k + length ids)"
    and so: "set others = {(nid, c). nid \<in> set ids \<and> can_node_be_decremented t nid c = Inr True}"
    and d: "distinct others"
    by auto
  have res: "find_candidates_loop rng t (nid # ids) k = Inr (?found @ others, k + length (nid # ids))"
    using s cc r by (simp add: Let_def)
  have in_cs: "c \<in> set (get_choice_indices_with_points s)"
    if "can_node_be_decremented t nid c = Inr True" for c
    using that can_node_be_decremented_eq[OF ok refs s, of c] by simp
  have sf: "set ?found = {(n, c). n = nid \<and> can_node_be_decremented t nid c = Inr True}"
    using in_cs by auto
  have st: "set (?found @ others) =
      {(n, c). n \<in> set (nid # ids) \<and> can_node_be_decremented t n c = Inr True}"
    unfolding set_append sf so by auto
  have "distinct ?found"
    by (simp add: distinct_map distinct_choice_indices inj_on_def)
  moreover have "set ?found \<inter> set others = {}"
    unfolding sf so using Cons.prems(2) by auto
  ultimately have "distinct (?found @ others)" using d by simp
  with res st show ?case by blast
qed

lemma can_node_be_decremented_True_known:
  "can_node_be_decremented t nid c = Inr True \<Longrightarrow> nid \<in> set (map fst (selection_by_node_id t))"
proof (rule ccontr)
  assume a: "can_node_be_decremented t nid c = Inr True"
    and "nid \<notin> set (map fst (selection_by_node_id t))"
  then have "map_of (selection_by_node_id t) nid = None" by (simp add: map_of_eq_None_iff)
  then show False using a by (simp add: can_node_be_decremented_unknown)
qed

lemma find_candidates_loop_append:
  "find_candidates_loop rng t (as @ bs) k =
     (case find_candidates_loop rng t as k of
        Inl e \<Rightarrow> Inl e
      | Inr (ca, k1) \<Rightarrow>
          (case find_candidates_loop rng t bs k1 of
             Inl e \<Rightarrow> Inl e
           | Inr (cb, k2) \<Rightarrow> Inr (ca @ cb, k2)))"
  by (induction as arbitrary: k) (auto simp: Let_def split: option.splits sum.splits)

lemma violating_subset_keys:
  "set (get_node_ids_with_violated_single_choice t) \<subseteq> set (map fst (selection_by_node_id t))"
  by (auto simp: get_node_ids_with_violated_single_choice_def)

lemma violating_distinct:
  "distinct (map fst (selection_by_node_id t)) \<Longrightarrow>
   distinct (get_node_ids_with_violated_single_choice t)"
  unfolding get_node_ids_with_violated_single_choice_def
  by (rule distinct_map_filter)

lemma find_nodes_to_decrement_ok:
  assumes "allocation_ok t" and "template_refs_ok (tree_template t)"
  shows "\<exists>vs ns k'. find_nodes_to_decrement rng k t = Inr (vs @ ns, k') \<and>
      set (vs @ ns) = candidates_of t \<and> distinct (vs @ ns) \<and>
      fst ` set vs \<subseteq> set (get_node_ids_with_violated_single_choice t) \<and>
      fst ` set ns \<inter> set (get_node_ids_with_violated_single_choice t) = {}"
proof -
  let ?keys = "map fst (selection_by_node_id t)"
  let ?viol = "get_node_ids_with_violated_single_choice t"
  let ?rest = "filter (\<lambda>nid. nid \<notin> set ?viol) (shuffle_with (rng k) ?keys)"
  have dk: "distinct ?keys" using assms(1) by (rule allocation_ok_distinct)
  have dv: "distinct ?viol" using dk by (rule violating_distinct)
  have dr: "distinct ?rest" using dk by simp
  have sr: "set ?rest = set ?keys - set ?viol" by auto
  from find_candidates_loop_ok[OF assms, of ?viol rng "Suc k"] violating_subset_keys dv
  obtain vs where
    v: "find_candidates_loop rng t ?viol (Suc k) = Inr (vs, Suc k + length ?viol)"
    and sv: "set vs = {(nid, c). nid \<in> set ?viol \<and> can_node_be_decremented t nid c = Inr True}"
    and dvs: "distinct vs"
    by blast
  from find_candidates_loop_ok[OF assms, of ?rest rng "Suc (k + length ?viol)"] dr sr
  obtain ns where
    n: "find_candidates_loop rng t ?rest (Suc (k + length ?viol)) =
          Inr (ns, Suc (k + length ?viol) + length ?rest)"
    and sn: "set ns = {(nid, c). nid \<in> set ?rest \<and> can_node_be_decremented t nid c = Inr True}"
    and dns: "distinct ns"
    by auto
  have res: "find_nodes_to_decrement rng k t = Inr (vs @ ns, Suc (k + length ?viol) + length ?rest)"
    by (simp add: find_nodes_to_decrement_def Let_def find_candidates_loop_append v n)
  have "set (vs @ ns) = candidates_of t"
    unfolding set_append sv sn sr candidates_of_def
    using can_node_be_decremented_True_known[of t] violating_subset_keys[of t] by auto
  moreover have "set vs \<inter> set ns = {}" unfolding sv sn sr by auto
  then have "distinct (vs @ ns)" using dvs dns by simp
  moreover have "fst ` set vs \<subseteq> set ?viol" unfolding sv by auto
  moreover have "fst ` set ns \<inter> set ?viol = {}" unfolding sn sr by auto
  ultimately show ?thesis using res by blast
qed

text \<open>
  Claim C5. Whatever the random generator does, \<open>find_nodes_to_decrement\<close> on
  an allocation over a template whose references resolve returns a list without
  repetition whose elements are exactly the pairs that \<open>can_node_be_decremented\<close>
  accepts, and the list is a first part whose pairs all belong to nodes that violate the
  single-choice rule followed by a second part whose pairs all belong to nodes that do
  not.
\<close>

theorem find_nodes_to_decrement_candidates:
  assumes "allocation_ok t" and "template_refs_ok (tree_template t)"
  shows "\<exists>vs ns k'. find_nodes_to_decrement rng k t = Inr (vs @ ns, k') \<and>
      set (vs @ ns) = candidates_of t \<and> distinct (vs @ ns) \<and>
      fst ` set vs \<subseteq> set (get_node_ids_with_violated_single_choice t) \<and>
      fst ` set ns \<inter> set (get_node_ids_with_violated_single_choice t) = {}"
  using assms by (rule find_nodes_to_decrement_ok)

theorem find_nodes_to_decrement_candidates_witness:
  "allocation_ok example_seed \<and> template_refs_ok (tree_template example_seed) \<and>
   get_node_ids_with_violated_single_choice example_seed = [''a''] \<and>
   find_nodes_to_decrement (\<lambda>_. [1]) 0 example_seed =
     Inr ([(''a'', 1), (''a'', 0)] @ [(''b'', 0)], 3) \<and>
   candidates_of example_seed = {(''a'', 1), (''a'', 0), (''b'', 0)}"
proof -
  have ok: "allocation_ok example_seed" "template_refs_ok (tree_template example_seed)"
    by (simp_all add: example_seed_def allocation_ok_example template_refs_ok_example)
  have v: "get_node_ids_with_violated_single_choice example_seed = [''a'']"
    by (simp add: get_node_ids_with_violated_single_choice_def violates_single_choice_rule_def
        example_seed_def example_allocation_def)
  have keys: "map fst (selection_by_node_id example_seed) = [''a'', ''b'']"
    by (simp add: example_seed_def example_allocation_def)
  have sel: "map_of (selection_by_node_id example_seed) ''a'' =
      Some \<lparr>node_reference = example_node_a, points_spent_by_choice_index = [2, 1]\<rparr>"
    "map_of (selection_by_node_id example_seed) ''b'' =
      Some \<lparr>node_reference = example_node_b, points_spent_by_choice_index = [1]\<rparr>"
    by (simp_all add: example_seed_def example_allocation_def)
  have idx: "get_choice_indices_with_points
      \<lparr>node_reference = n, points_spent_by_choice_index = [2, 1]\<rparr> = [0, 1]"
    "get_choice_indices_with_points
      \<lparr>node_reference = n, points_spent_by_choice_index = [1]\<rparr> = [0]" for n
    by (simp_all add: get_choice_indices_with_points_def)
  have gs: "sort_key gate_id (gates (gate_info (tree_template example_seed))) =
      [\<lparr>gate_id = 0, points_required_below = 0\<rparr>, \<lparr>gate_id = 1, points_required_below = 2\<rparr>]"
    by (simp add: example_seed_def example_template_def)
  have sp: "spent_points_by_gate example_seed = (\<lambda>_. 0)(0 := 3, 1 := 1)"
    by (simp add: example_seed_def example_allocation_def)
  have nd: "node_gate_id example_node_a = 0" "node_gate_id example_node_b = 1"
    "child_nodes example_node_b = []"
    by (simp_all add: example_node_a_def example_node_b_def)
  have hv: "holds_talent_points \<lparr>node_reference = n, points_spent_by_choice_index = [2, 1]\<rparr>"
    "holds_talent_points \<lparr>node_reference = n, points_spent_by_choice_index = [1]\<rparr>"
    "violates_single_choice_rule \<lparr>node_reference = n, points_spent_by_choice_index = [2, 1]\<rparr>" for n
    by (simp_all add: holds_talent_points_def violates_single_choice_rule_def)
  have can: "can_node_be_decremented example_seed ''a'' 0 = Inr True"
    "can_node_be_decremented example_seed ''a'' 1 = Inr True"
    "can_node_be_decremented example_seed ''b'' 0 = Inr True"
    unfolding can_node_be_decremented_eq[OF ok sel(1)] can_node_be_decremented_eq[OF ok sel(2)]
    by (simp_all add: gs sp nd hv idx Let_def)
  have f: "find_nodes_to_decrement (\<lambda>_. [1]) 0 example_seed =
     Inr ([(''a'', 1), (''a'', 0)] @ [(''b'', 0)], 3)"
    by (simp add: find_nodes_to_decrement_def v keys sel idx can Let_def)
  from find_nodes_to_decrement_candidates[OF ok, of "\<lambda>_. [1]" 0]
  obtain vs ns k' where r: "find_nodes_to_decrement (\<lambda>_. [1]) 0 example_seed = Inr (vs @ ns, k')"
    and c: "set (vs @ ns) = candidates_of example_seed"
    by (elim exE conjE)
  have "vs @ ns = [(''a'', 1), (''a'', 0)] @ [(''b'', 0)]"
    using r unfolding f by (simp only: sum.inject prod.inject)
  then have "set (vs @ ns) = {(''a'', 1), (''a'', 0), (''b'', 0)}"
    by (simp only: set_append list.set) auto
  with c have "candidates_of example_seed = {(''a'', 1), (''a'', 0), (''b'', 0)}"
    by simp
  with ok v f show ?thesis by simp
qed

section \<open>Properties of the beam search\<close>

lemma extends_refl [simp]: "extends st st"
  by (simp add: extends_def)

lemma extends_trans: "extends a b \<Longrightarrow> extends b c \<Longrightarrow> extends a c"
  by (simp add: extends_def)

lemma in_memo_extends: "extends st st' \<Longrightarrow> in_memo st t \<Longrightarrow> in_memo st' t"
  by (auto simp: extends_def in_memo_def)

lemma final_state_simps [simp]:
  "final_state (Inl (e, st)) = st" "final_state (Inr st) = st"
  by (simp_all add: final_state_def)

lemma sort_keys_of_ok:
  assumes "\<forall>n \<in> set ns. template_node_by_id tmpl (node_id (node_reference n)) \<noteq> None"
  shows "\<exists>keyed. sort_keys_of tmpl ns = Inr keyed"
  using assms by (induction ns) auto

lemma to_talent_string_ok:
  assumes "allocation_ok t"
  shows "\<exists>s. to_talent_string t = Inr s"
proof -
  have "\<forall>n \<in> set (map snd (selection_by_node_id t)).
      template_node_by_id (tree_template t) (node_id (node_reference n)) \<noteq> None"
  proof
    fix n assume "n \<in> set (map snd (selection_by_node_id t))"
    then obtain k where "(k, n) \<in> set (selection_by_node_id t)" by auto
    then have m: "map_of (selection_by_node_id t) k = Some n"
      using allocation_ok_distinct[OF assms] by simp
    show "template_node_by_id (tree_template t) (node_id (node_reference n)) \<noteq> None"
      using allocation_ok_template_node[OF assms m] allocation_ok_node_id[OF assms m] by simp
  qed
  from sort_keys_of_ok[OF this] show ?thesis
    by (auto simp: to_talent_string_def)
qed

lemma run_sim_eq:
  "run_sim env st r =
     (sim_runner env (length (sim_calls st)) r,
      st\<lparr>sim_calls := sim_calls st @ [(r, sim_runner env (length (sim_calls st)) r)]\<rparr>)"
  by (simp add: run_sim_def Let_def)

lemma make_talents_record_spec:
  "make_talents_record locked None (Some p) None = Inr r \<Longrightarrow> spec_talents r = p"
  by (auto simp: make_talents_record_def or_else_def split: option.splits)

text \<open>What one removal does, case by case.\<close>

lemma explore_one_cases:
  obtains (failed) e where "explore_one env tree (nid, c) st = Inl (e, st)"
  | (known) copied new_tree s d where "copy tree = Inr copied"
      "decrement_node copied nid c = Inr new_tree"
      "to_talent_string new_tree = Inr s" "dps_by_talent_str st s = Some d"
      "explore_one env tree (nid, c) st = Inr st"
  | (dropped) copied new_tree s r where "copy tree = Inr copied"
      "decrement_node copied nid c = Inr new_tree"
      "to_talent_string new_tree = Inr s" "dps_by_talent_str st s = None"
      "make_talents_record (locked_trees env) None (Some (TreeProvider new_tree)) None = Inr r"
      "sim_runner env (length (sim_calls st)) r = None"
      "explore_one env tree (nid, c) st = Inr (st\<lparr>sim_calls := sim_calls st @ [(r, None)]\<rparr>)"
  | (scored) copied new_tree s r out where "copy tree = Inr copied"
      "decrement_node copied nid c = Inr new_tree"
      "to_talent_string new_tree = Inr s" "dps_by_talent_str st s = None"
      "make_talents_record (locked_trees env) None (Some (TreeProvider new_tree)) None = Inr r"
      "sim_runner env (length (sim_calls st)) r = Some out"
      "explore_one env tree (nid, c) st =
         Inr (st\<lparr>sim_calls := sim_calls st @ [(r, Some out)],
                 dps_by_talent_str := (dps_by_talent_str st)(s \<mapsto> dps out),
                 candidates := candidates st @ [(new_tree, dps out)],
                 has_new_candidates := True,
                 best_dps := (if dps out > best_dps st \<and>
                       get_total_points_spent new_tree \<le> get_total_points_available new_tree
                     then dps out else best_dps st),
                 best_tree_so_far := (if dps out > best_dps st \<and>
                       get_total_points_spent new_tree \<le> get_total_points_available new_tree
                     then Some new_tree else best_tree_so_far st)\<rparr>)"
proof (cases "copy tree")
  case (Inl e)
  then have "explore_one env tree (nid, c) st = Inl (e, st)"
    by (simp add: explore_one_def)
  then show ?thesis by (rule failed)
next
  case cp: (Inr copied)
  show ?thesis
  proof (cases "decrement_node copied nid c")
    case (Inl e)
    then have "explore_one env tree (nid, c) st = Inl (e, st)"
      using cp by (simp add: explore_one_def)
    then show ?thesis by (rule failed)
  next
    case d: (Inr new_tree)
    show ?thesis
    proof (cases "to_talent_string new_tree")
      case (Inl e)
      then have "explore_one env tree (nid, c) st = Inl (e, st)"
        using cp d by (simp add: explore_one_def)
      then show ?thesis by (rule failed)
    next
      case s: (Inr s)
      show ?thesis
      proof (cases "dps_by_talent_str st s")
        case (Some known)
        then have "explore_one env tree (nid, c) st = Inr st"
          using cp d s by (simp add: explore_one_def)
        with cp d s Some show ?thesis by (rule known)
      next
        case m: None
        show ?thesis
        proof (cases "make_talents_record (locked_trees env) None (Some (TreeProvider new_tree)) None")
          case (Inl e)
          then have "explore_one env tree (nid, c) st = Inl (e, st)"
            using cp d s m by (simp add: explore_one_def)
          then show ?thesis by (rule failed)
        next
          case r: (Inr r)
          show ?thesis
          proof (cases "sim_runner env (length (sim_calls st)) r")
            case None
            then have "explore_one env tree (nid, c) st =
                Inr (st\<lparr>sim_calls := sim_calls st @ [(r, None)]\<rparr>)"
              using cp d s m r by (simp add: explore_one_def run_sim_eq)
            with cp d s m r None show ?thesis by (rule dropped)
          next
            case (Some out)
            then have "explore_one env tree (nid, c) st =
               Inr (st\<lparr>sim_calls := sim_calls st @ [(r, Some out)],
                 dps_by_talent_str := (dps_by_talent_str st)(s \<mapsto> dps out),
                 candidates := candidates st @ [(new_tree, dps out)],
                 has_new_candidates := True,
                 best_dps := (if dps out > best_dps st \<and>
                       get_total_points_spent new_tree \<le> get_total_points_available new_tree
                     then dps out else best_dps st),
                 best_tree_so_far := (if dps out > best_dps st \<and>
                       get_total_points_spent new_tree \<le> get_total_points_available new_tree
                     then Some new_tree else best_tree_so_far st)\<rparr>)"
              using cp d s m r by (simp add: explore_one_def run_sim_eq Let_def)
            with cp d s m r Some show ?thesis by (rule scored)
          qed
        qed
      qed
    qed
  qed
qed

lemma no_resubmission_snoc:
  "no_resubmission (cs @ [c]) \<longleftrightarrow>
     no_resubmission cs \<and> (\<forall>c' \<in> set cs. snd c' \<noteq> None \<longrightarrow> call_string c' \<noteq> call_string c)"
  by (induction cs) auto

lemma call_string_simp [simp]: "call_string (r, out) = provider_to_talent_string (spec_talents r)"
  by (simp add: call_string_def)

lemma new_call_ok:
  assumes "memo_matches_calls st" and "no_resubmission (sim_calls st)"
    and "dps_by_talent_str st s = None"
    and "provider_to_talent_string (spec_talents r) = Inr s"
  shows "no_resubmission (sim_calls st @ [(r, out)])"
proof -
  have "dps_by_talent_str st s \<noteq> None \<longleftrightarrow>
      (\<exists>c \<in> set (sim_calls st). snd c \<noteq> None \<and> call_string c = Inr s)"
    using assms(1) unfolding memo_matches_calls_def by (rule spec)
  then have "\<not> (\<exists>c \<in> set (sim_calls st). snd c \<noteq> None \<and> call_string c = Inr s)"
    using assms(3) by simp
  then have "call_string c' \<noteq> Inr s" if "c' \<in> set (sim_calls st)" "snd c' \<noteq> None" for c'
    using that by blast
  then show ?thesis using assms(2,4) by (simp add: no_resubmission_snoc)
qed

lemma memo_matches_failed_call:
  assumes "memo_matches_calls st"
  shows "memo_matches_calls (st\<lparr>sim_calls := sim_calls st @ [(r, None)]\<rparr>)"
  using assms by (simp add: memo_matches_calls_def)

lemma memo_matches_scored_call:
  assumes "memo_matches_calls st" and "provider_to_talent_string (spec_talents r) = Inr s"
  shows "memo_matches_calls (st\<lparr>sim_calls := sim_calls st @ [(r, Some out)],
            dps_by_talent_str := (dps_by_talent_str st)(s \<mapsto> d)\<rparr>)"
  using assms by (auto simp: memo_matches_calls_def)

lemma decrement_node_available:
  "decrement_node t nid c = Inr t' \<Longrightarrow>
   max_points_available t' = max_points_available t \<and> tree_template t' = tree_template t"
  by (erule decrement_node_InrD) simp

lemma excess_child:
  assumes "decrement_node t nid c = Inr t'"
    and "get_total_points_spent t > get_total_points_available t"
  shows "excess t' = excess t - 1"
  using decrement_node_total[OF assms(1)] decrement_node_available[OF assms(1)] assms(2)
  by (simp add: excess_def get_total_points_available_def)

lemma excess_nonneg: "0 \<le> excess t"
  by (simp add: excess_def)

lemma excess_valid: "get_total_points_spent t \<le> get_total_points_available t \<Longrightarrow> excess t = 0"
  by (simp add: excess_def)

lemma excess_over: "get_total_points_spent t > get_total_points_available t \<Longrightarrow> 1 \<le> excess t"
  by (simp add: excess_def)

lemma in_memo_simps [simp]:
  "in_memo (st\<lparr>sim_calls := x\<rparr>) t = in_memo st t"
  "in_memo (st\<lparr>candidates := y\<rparr>) t = in_memo st t"
  "in_memo (st\<lparr>has_new_candidates := b\<rparr>) t = in_memo st t"
  "in_memo (st\<lparr>best_dps := bd\<rparr>) t = in_memo st t"
  "in_memo (st\<lparr>best_tree_so_far := bt\<rparr>) t = in_memo st t"
  "in_memo (st\<lparr>shuffle_count := k\<rparr>) t = in_memo st t"
  "in_memo (st\<lparr>iteration := i\<rparr>) t = in_memo st t"
  "in_memo (st\<lparr>beam := bm\<rparr>) t = in_memo st t"
  by (simp_all add: in_memo_def)

lemma in_memo_iff:
  "in_memo st t \<longleftrightarrow> (\<exists>s. to_talent_string t = Inr s \<and> dps_by_talent_str st s \<noteq> None)"
  by (simp add: in_memo_def)

lemma in_memo_memo_eq:
  "dps_by_talent_str st' = dps_by_talent_str st \<Longrightarrow> in_memo st' t = in_memo st t"
  by (simp add: in_memo_iff)

lemma in_memo_update:
  "in_memo st t \<Longrightarrow> in_memo (st\<lparr>dps_by_talent_str := (dps_by_talent_str st)(s \<mapsto> d)\<rparr>) t"
  by (auto simp: in_memo_def)

lemma in_memo_new:
  "to_talent_string t = Inr s \<Longrightarrow> in_memo (st\<lparr>dps_by_talent_str := (dps_by_talent_str st)(s \<mapsto> d)\<rparr>) t"
  by (simp add: in_memo_def)

lemma explore_one_extends: "extends st (final_state (explore_one env tree (nid, c) st))"
  by (cases rule: explore_one_cases[of env tree nid c st]) (simp_all add: extends_def)

lemma explore_one_inv:
  assumes inv: "pass_inv M st" and ok: "allocation_ok tree"
    and over: "get_total_points_spent tree > get_total_points_available tree"
    and bound: "excess tree + iteration st \<le> M + 1"
  shows "pass_inv M (final_state (explore_one env tree (nid, c) st))"
proof (cases rule: explore_one_cases[of env tree nid c st])
  case (failed e)
  then show ?thesis using inv by simp
next
  case (known copied new_tree s d)
  then show ?thesis using inv by simp
next
  case (dropped copied new_tree s r)
  have sp: "provider_to_talent_string (spec_talents r) = Inr s"
    using make_talents_record_spec[OF dropped(5)] dropped(3) by simp
  have "no_resubmission (sim_calls st @ [(r, None)])"
    using inv dropped(4) sp by (intro new_call_ok) (simp_all add: pass_inv_def)
  moreover have "memo_matches_calls (st\<lparr>sim_calls := sim_calls st @ [(r, None)]\<rparr>)"
    using inv by (intro memo_matches_failed_call) (simp add: pass_inv_def)
  ultimately show ?thesis
    using inv by (simp add: dropped(7) pass_inv_def)
next
  case (scored copied new_tree s r out)
  have cp: "copied = tree" using copy_id[OF ok] scored(1) by simp
  have sp: "provider_to_talent_string (spec_talents r) = Inr s"
    using make_talents_record_spec[OF scored(5)] scored(3) by simp
  have nr: "no_resubmission (sim_calls st @ [(r, Some out)])"
    using inv scored(4) sp by (intro new_call_ok) (simp_all add: pass_inv_def)
  have mm: "memo_matches_calls (st\<lparr>sim_calls := sim_calls st @ [(r, Some out)],
            dps_by_talent_str := (dps_by_talent_str st)(s \<mapsto> dps out)\<rparr>)"
    using inv sp by (intro memo_matches_scored_call) (simp_all add: pass_inv_def)
  have nok: "allocation_ok new_tree"
    using scored(2) ok unfolding cp by (rule decrement_node_allocation_ok)
  have ex: "excess new_tree = excess tree - 1"
    using scored(2) over unfolding cp by (rule excess_child)
  have it: "iteration st \<le> M" using bound excess_over[OF over] by simp
  let ?st' = "st\<lparr>sim_calls := sim_calls st @ [(r, Some out)],
                 dps_by_talent_str := (dps_by_talent_str st)(s \<mapsto> dps out),
                 candidates := candidates st @ [(new_tree, dps out)],
                 has_new_candidates := True,
                 best_dps := (if dps out > best_dps st \<and>
                       get_total_points_spent new_tree \<le> get_total_points_available new_tree
                     then dps out else best_dps st),
                 best_tree_so_far := (if dps out > best_dps st \<and>
                       get_total_points_spent new_tree \<le> get_total_points_available new_tree
                     then Some new_tree else best_tree_so_far st)\<rparr>"
  have m': "memo_matches_calls ?st'"
    using mm by (simp add: memo_matches_calls_def)
  have old: "allocation_ok t \<and> in_memo ?st' t \<and> (excess t = 0 \<or> excess t + iteration ?st' \<le> M)"
    if "(t, d) \<in> set (candidates st)" for t d
  proof -
    from inv that have a: "allocation_ok t" "in_memo st t" "excess t = 0 \<or> excess t + iteration st \<le> M"
      by (auto simp: pass_inv_def)
    have "in_memo (st\<lparr>dps_by_talent_str := (dps_by_talent_str st)(s \<mapsto> dps out)\<rparr>) t"
      using a(2) by (rule in_memo_update)
    then have "in_memo ?st' t" by (subst in_memo_memo_eq[where st' = "?st'"]) simp_all
    with a show ?thesis by simp
  qed
  have new: "allocation_ok new_tree \<and> in_memo ?st' new_tree \<and>
      (excess new_tree = 0 \<or> excess new_tree + iteration ?st' \<le> M)"
  proof -
    have "in_memo (st\<lparr>dps_by_talent_str := (dps_by_talent_str st)(s \<mapsto> dps out)\<rparr>) new_tree"
      using scored(3) by (rule in_memo_new)
    then have "in_memo ?st' new_tree" by (subst in_memo_memo_eq[where st' = "?st'"]) simp_all
    moreover have "excess new_tree + iteration ?st' \<le> M" using ex bound by simp
    ultimately show ?thesis using nok by simp
  qed
  have "pass_inv M ?st'"
    unfolding pass_inv_def
  proof (intro conjI)
    show "memo_matches_calls ?st'" by (rule m')
    show "no_resubmission (sim_calls ?st')" using nr by simp
    show "\<forall>(t, d) \<in> set (candidates ?st').
        allocation_ok t \<and> in_memo ?st' t \<and> (excess t = 0 \<or> excess t + iteration ?st' \<le> M)"
      using old new by auto
    show "has_new_candidates ?st' \<longrightarrow> iteration ?st' \<le> M" using it by simp
  qed
  then show ?thesis by (simp add: scored(7))
qed

lemma explore_extends: "extends st (final_state (explore env tree removals st))"
proof (induction removals arbitrary: st)
  case Nil
  then show ?case by simp
next
  case (Cons removal rest)
  obtain nid c where rm: "removal = (nid, c)" by (cases removal)
  show ?case
  proof (cases "explore_one env tree (nid, c) st")
    case (Inl failure)
    then show ?thesis using explore_one_extends[of st env tree nid c] by (simp add: rm)
  next
    case (Inr st')
    then have "extends st st'" using explore_one_extends[of st env tree nid c] by simp
    then show ?thesis using Cons.IH[of st'] Inr by (simp add: rm extends_trans)
  qed
qed

lemma explore_inv:
  assumes "pass_inv M st" and "allocation_ok tree"
    and "get_total_points_spent tree > get_total_points_available tree"
    and "excess tree + iteration st \<le> M + 1"
  shows "pass_inv M (final_state (explore env tree removals st))"
  using assms(1,4)
proof (induction removals arbitrary: st)
  case Nil
  then show ?case by simp
next
  case (Cons removal rest)
  obtain nid c where rm: "removal = (nid, c)" by (cases removal)
  have one: "pass_inv M (final_state (explore_one env tree (nid, c) st))"
    using Cons.prems(1) assms(2,3) Cons.prems(2) by (rule explore_one_inv)
  show ?case
  proof (cases "explore_one env tree (nid, c) st")
    case (Inl failure)
    then show ?thesis using one by (simp add: rm)
  next
    case (Inr st')
    have "iteration st' = iteration st"
      using explore_one_extends[of st env tree nid c] Inr by (simp add: extends_def)
    then have "pass_inv M (final_state (explore env tree rest st'))"
      using one Inr Cons.prems(2) by (intro Cons.IH) simp_all
    then show ?thesis using Inr by (simp add: rm)
  qed
qed

lemma pass_inv_shuffle_count [simp]: "pass_inv M (st\<lparr>shuffle_count := k\<rparr>) = pass_inv M st"
  by (simp add: pass_inv_def memo_matches_calls_def)

lemma extends_shuffle_count: "extends st (st\<lparr>shuffle_count := k\<rparr>)"
  by (simp add: extends_def)

lemma process_tree_extends: "extends st (final_state (process_tree env tree st))"
proof (cases "get_total_points_spent tree \<le> get_total_points_available tree")
  case True
  then show ?thesis
    by (auto simp: process_tree_def extends_def split: sum.splits option.splits)
next
  case False
  show ?thesis
  proof (cases "find_nodes_to_decrement (random_source env) (shuffle_count st) tree")
    case (Inl e)
    then show ?thesis using False by (simp add: process_tree_def)
  next
    case (Inr found)
    obtain nodes k where f: "found = (nodes, k)" by (cases found)
    have "extends (st\<lparr>shuffle_count := Suc k\<rparr>)
        (final_state (explore env tree
           (py_slice_to (max_explorations_per_candidate (search_config env))
              (shuffle_with (random_source env k) nodes))
           (st\<lparr>shuffle_count := Suc k\<rparr>)))"
      by (rule explore_extends)
    then show ?thesis
      using False Inr f extends_trans[OF extends_shuffle_count]
      by (simp add: process_tree_def Let_def)
  qed
qed

lemma process_tree_inv:
  assumes inv: "pass_inv M st" and ok: "allocation_ok tree" and memo: "in_memo st tree"
    and bound: "excess tree + iteration st \<le> M + 1"
  shows "pass_inv M (final_state (process_tree env tree st))"
proof (cases "get_total_points_spent tree \<le> get_total_points_available tree")
  case True
  from memo obtain s d where s: "to_talent_string tree = Inr s" "dps_by_talent_str st s = Some d"
    by (auto simp: in_memo_iff)
  let ?st' = "st\<lparr>candidates := candidates st @ [(tree, d)],
                  best_tree_so_far := (if d > best_dps st then Some tree else best_tree_so_far st),
                  best_dps := (if d > best_dps st then d else best_dps st)\<rparr>"
  have r: "process_tree env tree st = Inr ?st'"
    using True s by (simp add: process_tree_def)
  have memo_eq: "dps_by_talent_str ?st' = dps_by_talent_str st" by simp
  have "pass_inv M ?st'"
    unfolding pass_inv_def
  proof (intro conjI)
    show "memo_matches_calls ?st'" using inv by (simp add: pass_inv_def memo_matches_calls_def)
    show "no_resubmission (sim_calls ?st')" using inv by (simp add: pass_inv_def)
    show "\<forall>(t, d) \<in> set (candidates ?st').
        allocation_ok t \<and> in_memo ?st' t \<and> (excess t = 0 \<or> excess t + iteration ?st' \<le> M)"
      using inv ok memo excess_valid[OF True]
      by (auto simp: pass_inv_def in_memo_memo_eq[OF memo_eq])
    show "has_new_candidates ?st' \<longrightarrow> iteration ?st' \<le> M"
      using inv by (simp add: pass_inv_def)
  qed
  then show ?thesis by (simp add: r)
next
  case False
  show ?thesis
  proof (cases "find_nodes_to_decrement (random_source env) (shuffle_count st) tree")
    case (Inl e)
    then show ?thesis using False inv by (simp add: process_tree_def)
  next
    case (Inr found)
    obtain nodes k where f: "found = (nodes, k)" by (cases found)
    have "pass_inv M (final_state (explore env tree
           (py_slice_to (max_explorations_per_candidate (search_config env))
              (shuffle_with (random_source env k) nodes))
           (st\<lparr>shuffle_count := Suc k\<rparr>)))"
      using inv ok False bound by (intro explore_inv) simp_all
    then show ?thesis
      using False Inr f by (simp add: process_tree_def Let_def)
  qed
qed

lemma process_beam_extends: "extends st (final_state (process_beam env trees st))"
proof (induction trees arbitrary: st)
  case Nil
  then show ?case by simp
next
  case (Cons tree rest)
  show ?case
  proof (cases "process_tree env tree st")
    case (Inl failure)
    then show ?thesis using process_tree_extends[of st env tree] by simp
  next
    case (Inr st')
    then have "extends st st'" using process_tree_extends[of st env tree] by simp
    then show ?thesis using Cons.IH[of st'] Inr by (simp add: extends_trans)
  qed
qed

lemma process_beam_inv:
  assumes "pass_inv M st"
    and "\<forall>t \<in> set trees. allocation_ok t \<and> in_memo st t \<and> excess t + iteration st \<le> M + 1"
  shows "pass_inv M (final_state (process_beam env trees st))"
  using assms
proof (induction trees arbitrary: st)
  case Nil
  then show ?case by simp
next
  case (Cons tree rest)
  have one: "pass_inv M (final_state (process_tree env tree st))"
    using Cons.prems by (intro process_tree_inv) simp_all
  show ?case
  proof (cases "process_tree env tree st")
    case (Inl failure)
    then show ?thesis using one by simp
  next
    case (Inr st')
    have ext: "extends st st'" using process_tree_extends[of st env tree] Inr by simp
    then have it: "iteration st' = iteration st" by (simp add: extends_def)
    have "\<forall>t \<in> set rest. allocation_ok t \<and> in_memo st' t \<and> excess t + iteration st' \<le> M + 1"
      using Cons.prems(2) in_memo_extends[OF ext] it by simp
    then have "pass_inv M (final_state (process_beam env rest st'))"
      using one Inr by (intro Cons.IH) simp_all
    then show ?thesis using Inr by simp
  qed
qed

lemma set_py_slice_to: "set (py_slice_to k xs) \<subseteq> set xs"
  by (auto simp: py_slice_to_def dest: in_set_takeD)

lemma pass_state_simps [simp]:
  "pass_state (Failed e st) = st" "pass_state (Break st) = st" "pass_state (Next st) = st"
  by (simp_all add: pass_state_def)

lemma beam_iteration_eq:
  "beam_iteration env st =
     (case process_beam env (beam st) (pass_start st) of
        Inl (e, st') \<Rightarrow> Failed e st'
      | Inr st1 \<Rightarrow>
          if \<not> has_new_candidates st1 then Break st1
          else if map fst (py_slice_to (beam_width (search_config env))
                            (sort_key (\<lambda>c. - snd c) (candidates st1))) = []
          then Break (st1\<lparr>candidates := sort_key (\<lambda>c. - snd c) (candidates st1), beam := []\<rparr>)
          else Next (st1\<lparr>candidates := sort_key (\<lambda>c. - snd c) (candidates st1),
                       beam := map fst (py_slice_to (beam_width (search_config env))
                            (sort_key (\<lambda>c. - snd c) (candidates st1)))\<rparr>))"
  by (simp add: beam_iteration_def Let_def split: sum.splits prod.splits)

lemma pass_start_inv:
  assumes "loop_inv M st"
  shows "pass_inv M (pass_start st)"
    and "\<forall>t \<in> set (beam st). allocation_ok t \<and> in_memo (pass_start st) t \<and>
           excess t + iteration (pass_start st) \<le> M + 1"
proof -
  have memo_eq: "dps_by_talent_str (pass_start st) = dps_by_talent_str st"
    by (simp add: pass_start_def)
  show "pass_inv M (pass_start st)"
    using assms by (simp add: pass_inv_def loop_inv_def pass_start_def memo_matches_calls_def)
  show "\<forall>t \<in> set (beam st). allocation_ok t \<and> in_memo (pass_start st) t \<and>
           excess t + iteration (pass_start st) \<le> M + 1"
    using assms by (simp add: loop_inv_def in_memo_memo_eq[OF memo_eq]) (simp add: pass_start_def)
qed

lemma pass_inv_trace:
  "pass_inv M st \<Longrightarrow> iteration st \<le> M + 1 \<Longrightarrow> trace_post M st"
  by (simp add: pass_inv_def trace_post_def)

lemma beam_iteration_inv:
  assumes inv: "loop_inv M st"
  shows "case beam_iteration env st of
           Failed e st' \<Rightarrow> trace_post M st'
         | Break st' \<Rightarrow> trace_post M st'
         | Next st' \<Rightarrow> loop_inv M st' \<and> iteration st' = iteration st + 1"
proof -
  let ?r = "process_beam env (beam st) (pass_start st)"
  let ?f = "final_state ?r"
  have pf: "pass_inv M ?f"
    using pass_start_inv[OF inv] by (rule process_beam_inv)
  have ext: "extends (pass_start st) ?f" by (rule process_beam_extends)
  have it: "iteration ?f = iteration st + 1"
    using ext by (simp add: extends_def pass_start_def)
  have le: "iteration ?f \<le> M + 1" using it inv by (simp add: loop_inv_def)
  have tp: "trace_post M ?f" using pf le by (rule pass_inv_trace)
  show ?thesis
  proof (cases ?r)
    case (Inl failure)
    obtain e st' where f: "failure = (e, st')" by (cases failure)
    with Inl tp show ?thesis by (simp add: beam_iteration_eq)
  next
    case (Inr st1)
    then have f: "?f = st1" by simp
    let ?sorted = "sort_key (\<lambda>c. - snd c) (candidates st1)"
    let ?new_beam = "map fst (py_slice_to (beam_width (search_config env)) ?sorted)"
    show ?thesis
    proof (cases "has_new_candidates st1")
      case False
      with Inr tp f show ?thesis by (simp add: beam_iteration_eq)
    next
      case True
      have itM: "iteration st1 \<le> M" using pf True f by (simp add: pass_inv_def)
      let ?st2 = "st1\<lparr>candidates := ?sorted, beam := ?new_beam\<rparr>"
      have memo_eq: "dps_by_talent_str ?st2 = dps_by_talent_str st1" by simp
      have mm: "memo_matches_calls ?st2" "no_resubmission (sim_calls ?st2)"
        using pf f by (simp_all add: pass_inv_def memo_matches_calls_def)
      have trees: "allocation_ok t \<and> in_memo ?st2 t \<and> excess t + iteration ?st2 \<le> M"
        if "t \<in> set ?new_beam" for t
      proof -
        from that obtain d where "(t, d) \<in> set (py_slice_to (beam_width (search_config env)) ?sorted)"
          by auto
        then have "(t, d) \<in> set (candidates st1)"
          using set_py_slice_to[of "beam_width (search_config env)" ?sorted] by auto
        then have "allocation_ok t" "in_memo st1 t" "excess t = 0 \<or> excess t + iteration st1 \<le> M"
          using pf f by (auto simp: pass_inv_def)
        then show ?thesis using itM by (auto simp: in_memo_memo_eq[OF memo_eq])
      qed
      have li: "loop_inv M ?st2"
        unfolding loop_inv_def
      proof (intro conjI)
        show "memo_matches_calls ?st2" "no_resubmission (sim_calls ?st2)" by (rule mm)+
        show "0 \<le> iteration ?st2" using it f inv by (simp add: loop_inv_def)
        show "iteration ?st2 \<le> M" using itM by simp
        show "\<forall>t \<in> set (beam ?st2). allocation_ok t \<and> in_memo ?st2 t \<and> excess t + iteration ?st2 \<le> M"
          using trees by simp
      qed
      have tp2: "trace_post M (st1\<lparr>candidates := ?sorted, beam := []\<rparr>)"
        using tp f by (simp add: trace_post_def memo_matches_calls_def)
      show ?thesis
        using Inr True li tp2 it f by (simp add: beam_iteration_eq)
    qed
  qed
qed

lemma beam_loop_trace:
  assumes "loop_inv M st"
  shows "\<exists>r. beam_loop env st = Some r \<and> trace_post M (final_state r)"
  using assms
proof (induction "nat (M - iteration st)" arbitrary: st rule: less_induct)
  case less
  show ?case
  proof (cases "beam st = []")
    case True
    have "beam_loop env st = Some (Inr st)"
      using True by (subst beam_loop.simps) simp
    moreover have "trace_post M st"
      using less.prems by (simp add: loop_inv_def trace_post_def)
    ultimately show ?thesis by simp
  next
    case False
    note bi = beam_iteration_inv[OF less.prems, of env]
    show ?thesis
    proof (cases "beam_iteration env st")
      case (Failed e st')
      have "beam_loop env st = Some (Inl (e, st'))"
        using False Failed by (subst beam_loop.simps) simp
      then show ?thesis using bi Failed by simp
    next
      case (Break st')
      have "beam_loop env st = Some (Inr st')"
        using False Break by (subst beam_loop.simps) simp
      then show ?thesis using bi Break by simp
    next
      case (Next st')
      have eq: "beam_loop env st = beam_loop env st'"
        using False Next by (subst beam_loop.simps) simp
      from bi Next have li: "loop_inv M st'" and it: "iteration st' = iteration st + 1" by simp_all
      have "iteration st' \<le> M" using li by (simp add: loop_inv_def)
      then have "nat (M - iteration st') < nat (M - iteration st)" using it by simp
      from less.hyps[OF this li] show ?thesis by (simp add: eq)
    qed
  qed
qed

lemma loop_state_inv:
  assumes "loop_state env st0 st" and "loop_inv M st0"
  shows "loop_inv M st"
  using assms
proof (induction rule: loop_state.induct)
  case first
  then show ?case .
next
  case (pass st st')
  then have "loop_inv M st" by simp
  from beam_iteration_inv[OF this, of env] pass.hyps(3) show ?case by simp
qed

lemma fillable_choices_empty_init:
  "PlayerTalentTree_init tmpl b = Inr t \<Longrightarrow> fillable_choices_empty t ex"
proof -
  assume "PlayerTalentTree_init tmpl b = Inr t"
  then have sels: "selection_by_node_id t = empty_dict tmpl"
    by (auto simp: PlayerTalentTree_init_eq)
  have "list_all (\<lambda>(i, p). (node_id (node_reference s), int i) \<in> ex \<or> p = 0)
          (enumerate 0 (points_spent_by_choice_index s))"
    if "(k, s) \<in> set (empty_dict tmpl)" for k s
  proof -
    have "points_spent_by_choice_index s = map (\<lambda>_. 0) (choices (node_reference s))"
      using empty_dict_values[OF that] by (metis points_empty_selection)
    then show ?thesis by (simp add: list_all_enumerate_nth)
  qed
  then have "\<forall>x \<in> set (empty_dict tmpl). case x of (nid, s) \<Rightarrow>
      list_all (\<lambda>(i, p). (node_id (node_reference s), int i) \<in> ex \<or> p = 0)
          (enumerate 0 (points_spent_by_choice_index s))"
    by (metis (mono_tags, lifting) case_prodI2)
  then show ?thesis
    unfolding fillable_choices_empty_def sels list_all_iff .
qed

lemma seed_allocation_ok:
  assumes "seed_allocation forest player block = Inr seed"
  shows "allocation_ok seed" and "tree_template seed = spec_tree forest"
proof -
  from assms obtain points fresh ex where
    i: "PlayerTalentTree_init (spec_tree forest) points = Inr fresh"
    and s: "skill_all_nodes fresh ex = Inr seed"
    by (auto simp: seed_allocation_def Let_def split: sum.splits)
  have "allocation_ok fresh" using i by (rule allocation_ok_init)
  moreover have "fillable_choices_empty fresh ex" using i by (rule fillable_choices_empty_init)
  ultimately obtain t' where "skill_all_nodes fresh ex = Inr t'" "allocation_ok t'"
    "tree_template t' = tree_template fresh"
    using skill_all_nodes_ok by blast
  with s i show "allocation_ok seed" and "tree_template seed = spec_tree forest"
    by (auto simp: PlayerTalentTree_init_eq)
qed

lemma initial_state_fields [simp]:
  "sim_calls initial_state = []" "iteration initial_state = 0"
  "dps_by_talent_str initial_state = Map.empty" "beam initial_state = []"
  by (simp_all add: initial_state_def)

text \<open>What the part before the loop does, case by case.\<close>

lemma seed_search_cases:
  obtains (no_seed) e where "seed_allocation forest player block = Inl e"
      "seed_search env forest player block = Inl (e, initial_state)"
  | (no_record) seed e where "seed_allocation forest player block = Inr seed"
      "make_talents_record (locked_trees env) None (Some (TreeProvider seed)) None = Inl e"
      "seed_search env forest player block = Inl (e, initial_state)"
  | (sim_failed) seed r where "seed_allocation forest player block = Inr seed"
      "make_talents_record (locked_trees env) None (Some (TreeProvider seed)) None = Inr r"
      "sim_runner env 0 r = None"
      "seed_search env forest player block =
         Inl (RuntimeError, initial_state\<lparr>sim_calls := [(r, None)]\<rparr>)"
  | (started) seed r out s where "seed_allocation forest player block = Inr seed"
      "make_talents_record (locked_trees env) None (Some (TreeProvider seed)) None = Inr r"
      "sim_runner env 0 r = Some out" "to_talent_string seed = Inr s"
      "seed_search env forest player block =
         Inr (initial_state\<lparr>sim_calls := [(r, Some out)],
                dps_by_talent_str := [s \<mapsto> dps out], beam := [seed]\<rparr>)"
proof (cases "seed_allocation forest player block")
  case (Inl e)
  then have "seed_search env forest player block = Inl (e, initial_state)"
    by (simp add: seed_search_def)
  with Inl show ?thesis by (rule no_seed)
next
  case sd: (Inr seed)
  have ok: "allocation_ok seed" using sd by (rule seed_allocation_ok)
  show ?thesis
  proof (cases "make_talents_record (locked_trees env) None (Some (TreeProvider seed)) None")
    case (Inl e)
    then have "seed_search env forest player block = Inl (e, initial_state)"
      using sd by (simp add: seed_search_def)
    with sd Inl show ?thesis by (rule no_record)
  next
    case r: (Inr r)
    show ?thesis
    proof (cases "sim_runner env 0 r")
      case None
      then have "seed_search env forest player block =
          Inl (RuntimeError, initial_state\<lparr>sim_calls := [(r, None)]\<rparr>)"
        using sd r by (simp add: seed_search_def run_sim_eq)
      with sd r None show ?thesis by (rule sim_failed)
    next
      case (Some out)
      from to_talent_string_ok[OF ok] obtain s where s: "to_talent_string seed = Inr s" ..
      have "seed_search env forest player block =
         Inr (initial_state\<lparr>sim_calls := [(r, Some out)],
                dps_by_talent_str := [s \<mapsto> dps out], beam := [seed]\<rparr>)"
        using sd r Some s by (simp add: seed_search_def run_sim_eq)
      with sd r Some s show ?thesis by (rule started)
    qed
  qed
qed

lemma loop_inv_seed:
  assumes "allocation_ok seed" and "to_talent_string seed = Inr s"
    and "make_talents_record locked None (Some (TreeProvider seed)) None = Inr r"
  shows "loop_inv (excess seed)
           (initial_state\<lparr>sim_calls := [(r, Some out)],
              dps_by_talent_str := [s \<mapsto> d], beam := [seed]\<rparr>)"
proof -
  have sp: "provider_to_talent_string (spec_talents r) = Inr s"
    using make_talents_record_spec[OF assms(3)] assms(2) by simp
  show ?thesis
    unfolding loop_inv_def
    using assms(1,2) sp excess_nonneg[of seed]
    by (auto simp: memo_matches_calls_def in_memo_iff)
qed

lemma beam_search_trace:
  "\<exists>r. beam_search_optimal_talents runner rnd cfg forest player locked block = Some r \<and>
        iteration (outcome_state r) \<le> seed_bound forest player block \<and>
        no_resubmission (sim_calls (outcome_state r)) \<and>
        memo_matches_calls (outcome_state r)"
proof -
  let ?env = "make_env runner rnd cfg locked"
  show ?thesis
  proof (cases rule: seed_search_cases[of forest player block ?env])
    case (no_seed e)
    then show ?thesis
      by (simp add: beam_search_optimal_talents_def outcome_state_def seed_bound_def
          memo_matches_calls_def)
  next
    case (no_record seed e)
    then show ?thesis
      by (simp add: beam_search_optimal_talents_def outcome_state_def seed_bound_def
          memo_matches_calls_def)
  next
    case (sim_failed seed r)
    then show ?thesis
      by (simp add: beam_search_optimal_talents_def outcome_state_def seed_bound_def
          memo_matches_calls_def)
  next
    case (started seed r out s)
    let ?st0 = "initial_state\<lparr>sim_calls := [(r, Some out)],
                dps_by_talent_str := [s \<mapsto> dps out], beam := [seed]\<rparr>"
    have ok: "allocation_ok seed" using started(1) by (rule seed_allocation_ok)
    have "loop_inv (excess seed) ?st0"
      using ok started(4,2) by (rule loop_inv_seed)
    from beam_loop_trace[OF this, of ?env] obtain res where
      res: "beam_loop ?env ?st0 = Some res" and tp: "trace_post (excess seed) (final_state res)"
      by blast
    have b: "seed_bound forest player block = excess seed + 1"
      using started(1) by (simp add: seed_bound_def excess_def)
    show ?thesis
    proof (cases res)
      case (Inl failure)
      obtain e st' where "failure = (e, st')" by (cases failure)
      with Inl res tp b started(5) show ?thesis
        by (simp add: beam_search_optimal_talents_def outcome_state_def trace_post_def)
    next
      case (Inr final)
      with res tp b started(5) show ?thesis
        by (simp add: beam_search_optimal_talents_def outcome_state_def trace_post_def)
    qed
  qed
qed

section \<open>The search raises no error of its own\<close>

text \<open>
  With the locked trees there and well-formed allocations over a template whose references
  resolve, every removal that is explored, every tree of the beam, every pass and the loop
  return without an error, whatever the simulation runner answers.
\<close>

lemma make_talents_record_ok:
  "env_ok env \<Longrightarrow> \<exists>r. make_talents_record (locked_trees env) None (Some p) None = Inr r"
  by (auto simp: env_ok_def make_talents_record_def or_else_def)

lemma make_talents_record_env_ok:
  "make_talents_record (locked_trees env) None (Some p) None = Inr r \<Longrightarrow> env_ok env"
  by (auto simp: env_ok_def make_talents_record_def or_else_def split: option.splits)

lemma explore_one_ok:
  assumes "env_ok env" and "resolved tree" and "choice_holds_point tree nid c"
    and "\<forall>(t, d) \<in> set (candidates st). resolved t"
  shows "\<exists>st'. explore_one env tree (nid, c) st = Inr st' \<and>
           (\<forall>(t, d) \<in> set (candidates st'). resolved t)"
proof -
  have ok: "allocation_ok tree" using assms(2) by (simp add: resolved_def)
  have cp: "copy tree = Inr tree" using ok by (rule copy_id)
  from decrement_node_Inr[OF ok assms(3)] obtain new_tree where
    d: "decrement_node tree nid c = Inr new_tree" ..
  have nok: "allocation_ok new_tree" using d ok by (rule decrement_node_allocation_ok)
  have "tree_template new_tree = tree_template tree" using decrement_node_available[OF d] by simp
  then have nres: "resolved new_tree" using nok assms(2) by (simp add: resolved_def)
  from to_talent_string_ok[OF nok] obtain s where s: "to_talent_string new_tree = Inr s" ..
  from make_talents_record_ok[OF assms(1)] obtain r where
    r: "make_talents_record (locked_trees env) None (Some (TreeProvider new_tree)) None = Inr r" ..
  show ?thesis
  proof (cases rule: explore_one_cases[of env tree nid c st])
    case (failed e)
    then show ?thesis
      using cp d s r
      by (auto simp: explore_one_def run_sim_eq Let_def split: option.splits)
  next
    case (known copied new_tree s d)
    then show ?thesis using assms(4) by simp
  next
    case (dropped copied new_tree s r)
    then show ?thesis using assms(4) by simp
  next
    case (scored copied nt s' r' out)
    have "nt = new_tree" using scored(1,2) cp d by simp
    then show ?thesis using assms(4) nres by (auto simp: scored(7))
  qed
qed

lemma explore_ok:
  assumes "env_ok env" and "resolved tree"
    and "\<forall>(nid, c) \<in> set removals. choice_holds_point tree nid c"
    and "\<forall>(t, d) \<in> set (candidates st). resolved t"
  shows "\<exists>st'. explore env tree removals st = Inr st' \<and>
           (\<forall>(t, d) \<in> set (candidates st'). resolved t)"
  using assms(3,4)
proof (induction removals arbitrary: st)
  case Nil
  then show ?case by simp
next
  case (Cons removal rest)
  obtain nid c where rm: "removal = (nid, c)" by (cases removal)
  have "choice_holds_point tree nid c" using Cons.prems(1) rm by simp
  from explore_one_ok[OF assms(1,2) this Cons.prems(2)] obtain st1 where
    one: "explore_one env tree (nid, c) st = Inr st1"
    and c1: "\<forall>(t, d) \<in> set (candidates st1). resolved t"
    by blast
  have "\<forall>(nid, c) \<in> set rest. choice_holds_point tree nid c" using Cons.prems(1) by simp
  from Cons.IH[OF this c1] show ?case using one by (simp add: rm)
qed

lemma candidate_holds_point:
  assumes "resolved t" and "can_node_be_decremented t nid c = Inr True"
  shows "choice_holds_point t nid c"
proof -
  have ok: "allocation_ok t" and refs: "template_refs_ok (tree_template t)"
    using assms(1) by (simp_all add: resolved_def)
  have "nid \<in> set (map fst (selection_by_node_id t))"
    using assms(2) by (rule can_node_be_decremented_True_known)
  then have "map_of (selection_by_node_id t) nid \<noteq> None" by (simp add: map_of_eq_None_iff)
  then obtain s where s: "map_of (selection_by_node_id t) nid = Some s" by auto
  have "c \<in> set (get_choice_indices_with_points s)"
    using assms(2) can_node_be_decremented_eq[OF ok refs s, of c] by simp
  then show ?thesis
    using s by (simp add: choice_holds_point_def in_choice_indices_iff)
qed

lemma process_tree_ok:
  assumes "env_ok env" and "resolved tree" and "in_memo st tree"
    and "\<forall>(t, d) \<in> set (candidates st). resolved t"
  shows "\<exists>st'. process_tree env tree st = Inr st' \<and>
           (\<forall>(t, d) \<in> set (candidates st'). resolved t)"
proof (cases "get_total_points_spent tree \<le> get_total_points_available tree")
  case True
  from assms(3) obtain s d where "to_talent_string tree = Inr s" "dps_by_talent_str st s = Some d"
    by (auto simp: in_memo_def)
  then show ?thesis
    using True assms(2,4) by (auto simp: process_tree_def)
next
  case False
  have ok: "allocation_ok tree" and refs: "template_refs_ok (tree_template tree)"
    using assms(2) by (simp_all add: resolved_def)
  from find_nodes_to_decrement_ok[OF ok refs, of "random_source env" "shuffle_count st"]
  obtain vs ns k where f: "find_nodes_to_decrement (random_source env) (shuffle_count st) tree =
      Inr (vs @ ns, k)" and cs: "set (vs @ ns) = candidates_of tree"
    by (elim exE conjE)
  let ?removals = "py_slice_to (max_explorations_per_candidate (search_config env))
      (shuffle_with (random_source env k) (vs @ ns))"
  have "set ?removals \<subseteq> candidates_of tree"
    using set_py_slice_to[of _ "shuffle_with (random_source env k) (vs @ ns)"] cs by simp
  then have hp: "\<forall>(nid, c) \<in> set ?removals. choice_holds_point tree nid c"
    using candidate_holds_point[OF assms(2)] by (auto simp: candidates_of_def)
  have "\<forall>(t, d) \<in> set (candidates (st\<lparr>shuffle_count := Suc k\<rparr>)). resolved t"
    using assms(4) by simp
  from explore_ok[OF assms(1,2) hp this] show ?thesis
    using False f by (simp add: process_tree_def Let_def)
qed

lemma process_beam_ok:
  assumes "env_ok env" and "\<forall>t \<in> set trees. resolved t \<and> in_memo st t"
    and "\<forall>(t, d) \<in> set (candidates st). resolved t"
  shows "\<exists>st'. process_beam env trees st = Inr st' \<and>
           (\<forall>(t, d) \<in> set (candidates st'). resolved t)"
  using assms(2,3)
proof (induction trees arbitrary: st)
  case Nil
  then show ?case by simp
next
  case (Cons tree rest)
  have "resolved tree" "in_memo st tree" using Cons.prems(1) by simp_all
  from process_tree_ok[OF assms(1) this Cons.prems(2)] obtain st1 where
    one: "process_tree env tree st = Inr st1"
    and c1: "\<forall>(t, d) \<in> set (candidates st1). resolved t"
    by blast
  have "extends st st1" using process_tree_extends[of st env tree] one by simp
  then have "\<forall>t \<in> set rest. resolved t \<and> in_memo st1 t"
    using Cons.prems(1) in_memo_extends by auto
  from Cons.IH[OF this c1] show ?case using one by simp
qed

lemma process_beam_append:
  "process_beam env (pre @ rest) st =
     (case process_beam env pre st of
        Inl failure \<Rightarrow> Inl failure
      | Inr st' \<Rightarrow> process_beam env rest st')"
  by (induction pre arbitrary: st) (auto split: sum.splits)

lemma in_memo_pass_start [simp]: "in_memo (pass_start st) t = in_memo st t"
  by (simp add: pass_start_def)

lemma beam_iteration_ok:
  assumes "env_ok env" and "\<forall>t \<in> set (beam st). resolved t \<and> in_memo st t"
  shows "case beam_iteration env st of
           Failed e st' \<Rightarrow> False
         | Break st' \<Rightarrow> True
         | Next st' \<Rightarrow> \<forall>t \<in> set (beam st'). resolved t"
proof -
  have "\<forall>t \<in> set (beam st). resolved t \<and> in_memo (pass_start st) t" using assms(2) by simp
  moreover have "\<forall>(t, d) \<in> set (candidates (pass_start st)). resolved t"
    by (simp add: pass_start_def)
  ultimately obtain st1 where r: "process_beam env (beam st) (pass_start st) = Inr st1"
    and c: "\<forall>(t, d) \<in> set (candidates st1). resolved t"
    using process_beam_ok[OF assms(1)] by blast
  have "resolved (fst x)" if "x \<in> set (py_slice_to k (sort_key f (candidates st1)))" for x k f
  proof -
    have "x \<in> set (candidates st1)"
      using that set_py_slice_to[of k "sort_key f (candidates st1)"] by auto
    then show "resolved (fst x)" using c by auto
  qed
  then show ?thesis
    using r by (auto simp: beam_iteration_eq)
qed

lemma beam_loop_ok:
  assumes "env_ok env" and "loop_inv M st" and "\<forall>t \<in> set (beam st). resolved t"
  shows "\<exists>final. beam_loop env st = Some (Inr final)"
  using assms(2,3)
proof (induction "nat (M - iteration st)" arbitrary: st rule: less_induct)
  case less
  show ?case
  proof (cases "beam st = []")
    case True
    have "beam_loop env st = Some (Inr st)"
      using True by (subst beam_loop.simps) simp
    then show ?thesis by simp
  next
    case False
    note bi = beam_iteration_inv[OF less.prems(1), of env]
    have "\<forall>t \<in> set (beam st). resolved t \<and> in_memo st t"
      using less.prems by (simp add: loop_inv_def)
    note bo = beam_iteration_ok[OF assms(1) this]
    show ?thesis
    proof (cases "beam_iteration env st")
      case (Failed e st')
      then show ?thesis using bo by simp
    next
      case (Break st')
      have "beam_loop env st = Some (Inr st')"
        using False Break by (subst beam_loop.simps) simp
      then show ?thesis by simp
    next
      case (Next st')
      have eq: "beam_loop env st = beam_loop env st'"
        using False Next by (subst beam_loop.simps) simp
      from bi Next have li: "loop_inv M st'" and it: "iteration st' = iteration st + 1" by simp_all
      from bo Next have res: "\<forall>t \<in> set (beam st'). resolved t" by simp
      have "iteration st' \<le> M" using li by (simp add: loop_inv_def)
      then have "nat (M - iteration st') < nat (M - iteration st)" using it by simp
      from less.hyps[OF this li res] show ?thesis by (simp add: eq)
    qed
  qed
qed

section \<open>The two runs\<close>

text \<open>
  The operations of the search on the allocations over the pair template.
\<close>

lemma pair_fields [simp]:
  "tree_template (pair_allocation a b) = pair_template"
  "max_points_available (pair_allocation a b) = 30"
  "map_of (selection_by_node_id (pair_allocation a b)) ''x'' =
     Some \<lparr>node_reference = pair_node_x, points_spent_by_choice_index = [a]\<rparr>"
  "map_of (selection_by_node_id (pair_allocation a b)) ''y'' =
     Some \<lparr>node_reference = pair_node_y, points_spent_by_choice_index = [b]\<rparr>"
  by (simp_all add: pair_allocation_def)

lemma allocation_ok_pair: "allocation_ok (pair_allocation a b)"
  by (simp add: allocation_ok_def get_empty_selections_dict_def PlayerTalentNodeSelection_init_def
      pair_template_def pair_node_x_def pair_node_y_def pair_allocation_def empty_selection_def)

lemma template_refs_ok_pair: "template_refs_ok pair_template"
  by (simp add: template_refs_ok_def pair_template_def pair_node_x_def pair_node_y_def)

lemma resolved_pair: "resolved (pair_allocation a b)"
  by (simp add: resolved_def allocation_ok_pair template_refs_ok_pair)

lemma copy_pair: "copy (pair_allocation a b) = Inr (pair_allocation a b)"
  using allocation_ok_pair by (rule copy_id)

lemma totals_pair:
  "get_total_points_spent (pair_allocation a b) = a + b"
  "get_total_points_available (pair_allocation a b) = 30"
  by (simp_all add: get_total_points_spent_def get_total_points_available_def pair_allocation_def)

lemma decrement_pair:
  "0 < a \<Longrightarrow> decrement_node (pair_allocation a b) ''x'' 0 = Inr (pair_allocation (a - 1) b)"
  "0 < b \<Longrightarrow> decrement_node (pair_allocation a b) ''y'' 0 = Inr (pair_allocation a (b - 1))"
  by (simp_all add: decrement_node_def remove_point_from_choice_def pair_allocation_def
      pair_node_x_def pair_node_y_def Let_def fun_eq_iff)

lemma str_int_values: "str_int 14 = ''14''" "str_int 15 = ''15''" "str_int 16 = ''16''"
  by (simp_all add: str_int_def str_nat.simps[of 14] str_nat.simps[of 15] str_nat.simps[of 16]
      str_nat.simps[of 1] str_nat.simps[of "Suc 0"] digit_char_def)

lemma string_pair:
  "0 < a \<Longrightarrow> 0 < b \<Longrightarrow>
   to_talent_string (pair_allocation a b) = Inr (''x:'' @ str_int a @ ''/y:'' @ str_int b)"
  by (simp add: to_talent_string_def selection_to_talent_string_def pair_allocation_def
      pair_template_def pair_node_x_def pair_node_y_def template_node_by_id_def)

lemma can_pair:
  "0 < a \<Longrightarrow> can_node_be_decremented (pair_allocation a b) ''x'' 0 = Inr True"
  "0 < b \<Longrightarrow> can_node_be_decremented (pair_allocation a b) ''y'' 0 = Inr True"
  unfolding can_node_be_decremented_eq[OF allocation_ok_pair
      template_refs_ok_pair[folded pair_fields(1)[of a b]] pair_fields(3)]
    can_node_be_decremented_eq[OF allocation_ok_pair
      template_refs_ok_pair[folded pair_fields(1)[of a b]] pair_fields(4)]
  by (simp_all add: holds_talent_points_def get_choice_indices_with_points_def
      pair_node_x_def pair_node_y_def pair_template_def)

lemma find_pair:
  assumes "0 < a" and "0 < b"
  shows "find_nodes_to_decrement no_shuffle k (pair_allocation a b) =
           Inr ([(''x'', 0), (''y'', 0)], Suc (Suc (Suc k)))"
proof -
  have v: "get_node_ids_with_violated_single_choice (pair_allocation a b) = []"
    by (simp add: get_node_ids_with_violated_single_choice_def violates_single_choice_rule_def
        get_choice_indices_with_points_def pair_allocation_def)
  have keys: "map fst (selection_by_node_id (pair_allocation a b)) = [''x'', ''y'']"
    by (simp add: pair_allocation_def)
  have idx: "get_choice_indices_with_points
      \<lparr>node_reference = n, points_spent_by_choice_index = [a]\<rparr> = [0]"
    "get_choice_indices_with_points
      \<lparr>node_reference = n, points_spent_by_choice_index = [b]\<rparr> = [0]" for n
    using assms by (simp_all add: get_choice_indices_with_points_def)
  show ?thesis
    unfolding find_nodes_to_decrement_def v keys
    by (simp add: no_shuffle_def idx can_pair assms)
qed

lemma record_pair:
  "make_talents_record (locked_trees (example_env n)) None (Some (TreeProvider t)) None =
     Inr (record_of t)"
  by (simp add: example_env_def make_env_def make_talents_record_def or_else_def example_locked_def
      record_of_def)

lemma example_env_fields [simp]:
  "sim_runner (example_env n) = failing_runner n" "random_source (example_env n) = no_shuffle"
  "search_config (example_env n) = default_config"
  by (simp_all add: example_env_def make_env_def)

lemma seed_pair: "seed_allocation pair_forest example_player None = Inr (pair_allocation 16 16)"
  by (simp add: seed_allocation_def get_available_spec_talent_points_def example_player_def
      pair_forest_def PlayerTalentTree_init_def get_empty_selections_dict_def
      PlayerTalentNodeSelection_init_def skill_all_nodes_def pair_template_def pair_node_x_def
      pair_node_y_def pair_allocation_def fun_eq_iff)

text \<open>
  The run over the pair template, pass by pass.
\<close>

lemma string_pair_values:
  "to_talent_string (pair_allocation 16 16) = Inr ''x:16/y:16''"
  "to_talent_string (pair_allocation 15 16) = Inr ''x:15/y:16''"
  "to_talent_string (pair_allocation 16 15) = Inr ''x:16/y:15''"
  "to_talent_string (pair_allocation 14 16) = Inr ''x:14/y:16''"
  "to_talent_string (pair_allocation 15 15) = Inr ''x:15/y:15''"
  "to_talent_string (pair_allocation 16 14) = Inr ''x:16/y:14''"
  by (simp_all add: string_pair str_int_values)

lemma seed_search_pair:
  "0 < n \<Longrightarrow> seed_search (example_env n) pair_forest example_player None = Inr pair_started"
  by (simp add: seed_search_def seed_pair record_pair run_sim_eq failing_runner_def
      string_pair_values initial_state_def pair_started_def)

lemma explore_one_pair_x:
  assumes "0 < a" and "to_talent_string (pair_allocation (a - 1) b) = Inr s"
  shows "explore_one (example_env n) (pair_allocation a b) (''x'', 0) st =
     (case dps_by_talent_str st s of
        Some known \<Rightarrow> Inr st
      | None \<Rightarrow>
          (if length (sim_calls st) < n then
             Inr (st\<lparr>sim_calls := sim_calls st @ [(record_of (pair_allocation (a - 1) b), Some \<lparr>dps = 1\<rparr>)],
                    dps_by_talent_str := (dps_by_talent_str st)(s \<mapsto> 1),
                    candidates := candidates st @ [(pair_allocation (a - 1) b, 1)],
                    has_new_candidates := True,
                    best_dps := (if 1 > best_dps st \<and> a - 1 + b \<le> 30 then 1 else best_dps st),
                    best_tree_so_far :=
                      (if 1 > best_dps st \<and> a - 1 + b \<le> 30 then Some (pair_allocation (a - 1) b)
                       else best_tree_so_far st)\<rparr>)
           else Inr (st\<lparr>sim_calls := sim_calls st @ [(record_of (pair_allocation (a - 1) b), None)]\<rparr>)))"
  using assms
  by (auto simp: explore_one_def copy_pair decrement_pair record_pair run_sim_eq failing_runner_def
      totals_pair Let_def split: option.splits)

lemma explore_one_pair_y:
  assumes "0 < b" and "to_talent_string (pair_allocation a (b - 1)) = Inr s"
  shows "explore_one (example_env n) (pair_allocation a b) (''y'', 0) st =
     (case dps_by_talent_str st s of
        Some known \<Rightarrow> Inr st
      | None \<Rightarrow>
          (if length (sim_calls st) < n then
             Inr (st\<lparr>sim_calls := sim_calls st @ [(record_of (pair_allocation a (b - 1)), Some \<lparr>dps = 1\<rparr>)],
                    dps_by_talent_str := (dps_by_talent_str st)(s \<mapsto> 1),
                    candidates := candidates st @ [(pair_allocation a (b - 1), 1)],
                    has_new_candidates := True,
                    best_dps := (if 1 > best_dps st \<and> a + (b - 1) \<le> 30 then 1 else best_dps st),
                    best_tree_so_far :=
                      (if 1 > best_dps st \<and> a + (b - 1) \<le> 30 then Some (pair_allocation a (b - 1))
                       else best_tree_so_far st)\<rparr>)
           else Inr (st\<lparr>sim_calls := sim_calls st @ [(record_of (pair_allocation a (b - 1)), None)]\<rparr>)))"
  using assms
  by (auto simp: explore_one_def copy_pair decrement_pair record_pair run_sim_eq failing_runner_def
      totals_pair Let_def split: option.splits)

lemma process_tree_pair:
  assumes "0 < a" and "0 < b" and "30 < a + b"
  shows "process_tree (example_env n) (pair_allocation a b) st =
     explore (example_env n) (pair_allocation a b) [(''x'', 0), (''y'', 0)]
       (st\<lparr>shuffle_count := Suc (Suc (Suc (Suc (shuffle_count st))))\<rparr>)"
  using assms
  by (simp add: process_tree_def totals_pair find_pair no_shuffle_def default_config_def
      py_slice_to_def Let_def)

lemma pair_first_pass: "beam_iteration (example_env 3) pair_started = Next pair_second"
  by (simp add: beam_iteration_def pass_start_def pair_started_def process_tree_pair
      explore_one_pair_x[of 16 16, simplified, OF string_pair_values(2)]
      explore_one_pair_y[of 16 16, simplified, OF string_pair_values(3)]
      default_config_def py_slice_to_def Let_def pair_second_def)

lemma pair_second_pass: "beam_iteration (example_env 3) pair_second = Break pair_last"
  by (simp add: beam_iteration_def pass_start_def pair_second_def process_tree_pair
      explore_one_pair_x[of 15 16, simplified, OF string_pair_values(4)]
      explore_one_pair_y[of 16 15, simplified, OF string_pair_values(5)]
      explore_one_pair_x[of 16 15, simplified, OF string_pair_values(5)]
      explore_one_pair_y[of 15 16, simplified, OF string_pair_values(6)]
      default_config_def py_slice_to_def Let_def pair_last_def)

lemma pair_loop: "beam_loop (example_env 3) pair_started = Some (Inr pair_last)"
proof -
  have b: "beam pair_started \<noteq> []" "beam pair_second \<noteq> []"
    by (simp_all add: pair_started_def pair_second_def)
  have "beam_loop (example_env 3) pair_started = beam_loop (example_env 3) pair_second"
    using b(1) by (subst beam_loop.simps) (simp add: pair_first_pass)
  also have "\<dots> = Some (Inr pair_last)"
    using b(2) by (subst beam_loop.simps) (simp add: pair_second_pass)
  finally show ?thesis .
qed

lemma pair_run:
  "beam_search_optimal_talents (failing_runner 3) no_shuffle None pair_forest example_player
     (Some example_locked) None =
   Some (Inr (\<lparr>best_tree_result = None, result_best_dps = 0\<rparr>, pair_last))"
proof -
  have "search_result (example_env 3) pair_last = \<lparr>best_tree_result = None, result_best_dps = 0\<rparr>"
    by (simp add: search_result_def pair_last_def example_env_def make_env_def example_locked_def)
  then show ?thesis
    unfolding beam_search_optimal_talents_def example_env_def[symmetric] Let_def
    by (simp add: seed_search_pair pair_loop)
qed

text \<open>
  The run over the small template.
\<close>

lemma seed_example: "seed_allocation example_forest example_player None = Inr example_seed"
  by (simp add: seed_allocation_def get_available_spec_talent_points_def example_player_def
      example_forest_def example_fresh_init example_seed_skill)

lemma totals_example_seed:
  "get_total_points_spent example_seed = 4" "get_total_points_available example_seed = 30"
  by (simp_all add: get_total_points_spent_def get_total_points_available_def example_seed_def
      example_allocation_def example_template_def)

lemma str_int_small: "str_int 1 = ''1''" "str_int 2 = ''2''"
  by (simp_all add: str_int_def str_nat.simps[of 1] str_nat.simps[of 2] str_nat.simps[of "Suc 0"]
      digit_char_def)

lemma string_example_seed: "to_talent_string example_seed = Inr ''alpha:2/aleph:1/beta:1''"
  by (simp add: to_talent_string_def selection_to_talent_string_def example_seed_def
      example_allocation_def example_template_def example_node_a_def example_node_b_def
      template_node_by_id_def str_int_small)

lemma seed_search_example:
  "0 < n \<Longrightarrow> seed_search (example_env n) example_forest example_player None = Inr example_started"
  by (simp add: seed_search_def seed_example record_pair run_sim_eq failing_runner_def
      string_example_seed initial_state_def example_started_def)

lemma process_tree_example:
  "process_tree (example_env n) example_seed (pass_start example_started) = Inr example_last"
  by (simp add: process_tree_def totals_example_seed string_example_seed pass_start_def
      example_started_def example_last_def)

lemma example_pass: "beam_iteration (example_env n) example_started = Break example_last"
proof -
  have b: "beam example_started = [example_seed]" by (simp add: example_started_def)
  have h: "\<not> has_new_candidates example_last" by (simp add: example_last_def)
  show ?thesis
    unfolding beam_iteration_def b by (simp add: process_tree_example h)
qed

lemma example_run:
  assumes "0 < n"
  shows "beam_search_optimal_talents (failing_runner n) no_shuffle None example_forest
     example_player (Some example_locked) None = Some (Inr (example_result, example_last))"
proof -
  have r: "search_result (example_env n) example_last = example_result"
    by (simp add: search_result_def example_last_def example_env_def make_env_def example_locked_def
        example_result_def)
  have b: "beam example_started \<noteq> []" by (simp add: example_started_def)
  have "beam_loop (example_env n) example_started = Some (Inr example_last)"
    using b by (subst beam_loop.simps) (simp add: example_pass)
  then show ?thesis
    unfolding beam_search_optimal_talents_def example_env_def[symmetric] Let_def
    by (simp add: seed_search_example[OF assms] r)
qed

section \<open>The number of passes and the calls of the simulation runner\<close>

text \<open>
  Claim C6, as amended. For every template, player, block list, configuration, random
  generator and behaviour of the simulation runner, \<open>beam_search_optimal_talents\<close>
  returns (its value is not \<open>None\<close>, the value of a loop that does not end), and
  the loop counter \<open>iteration\<close>, which the loop increments when it starts a
  pass, ends at no more than \<open>max(0, initial_total_spent - budget) + 1\<close>, where
  \<open>initial_total_spent\<close> is the total of the seed allocation and
  \<open>budget\<close> its points available. Where the seed allocation cannot be made the
  call fails before the loop, in the initial state.
\<close>

theorem beam_search_pass_bound:
  "\<exists>r. beam_search_optimal_talents runner rnd cfg forest player locked block = Some r \<and>
        (case seed_allocation forest player block of
           Inl e \<Rightarrow> r = Inl (e, initial_state)
         | Inr seed \<Rightarrow>
             iteration (outcome_state r)
               \<le> max 0 (get_total_points_spent seed - get_total_points_available seed) + 1)"
proof (cases "seed_allocation forest player block")
  case (Inl e)
  then show ?thesis
    by (simp add: beam_search_optimal_talents_def seed_search_def)
next
  case (Inr seed)
  then show ?thesis
    using beam_search_trace[of runner rnd cfg forest player locked block]
    by (auto simp: seed_bound_def)
qed

theorem beam_search_pass_bound_witness:
  "seed_allocation pair_forest example_player None = Inr (pair_allocation 16 16) \<and>
   get_total_points_spent (pair_allocation 16 16) = 32 \<and>
   get_total_points_available (pair_allocation 16 16) = 30 \<and>
   (\<exists>r. beam_search_optimal_talents (failing_runner 3) no_shuffle None pair_forest example_player
          (Some example_locked) None = Some r \<and>
        iteration (outcome_state r) \<le> 3)"
  using beam_search_pass_bound[of "failing_runner 3" no_shuffle None pair_forest example_player
      "Some example_locked" None]
  by (simp add: seed_pair totals_pair)

text \<open>
  Claim C6 as stated, with the bound \<open>initial_total_spent - budget + 1\<close>,
  fails where the seed allocation is within the budget: the filled small template holds 4
  points for a budget of 30, the loop runs one pass, and the bound is -25.
\<close>

theorem pass_bound_counterexample:
  "seed_allocation example_forest example_player None = Inr example_seed \<and>
   get_total_points_spent example_seed = 4 \<and> get_total_points_available example_seed = 30 \<and>
   beam_search_optimal_talents (failing_runner 3) no_shuffle None example_forest example_player
     (Some example_locked) None = Some (Inr (example_result, example_last)) \<and>
   iteration example_last = 1 \<and>
   \<not> iteration example_last
       \<le> get_total_points_spent example_seed - get_total_points_available example_seed + 1"
proof -
  have "iteration example_last = 1" by (simp add: example_last_def)
  moreover have "beam_search_optimal_talents (failing_runner 3) no_shuffle None example_forest
      example_player (Some example_locked) None = Some (Inr (example_result, example_last))"
    by (rule example_run) simp
  ultimately show ?thesis
    by (simp add: seed_example totals_example_seed)
qed

text \<open>
  A call that succeeded is not repeated: no later call has the string of an earlier call
  with an answer. And a removal whose allocation has its string in the memo table leaves the
  state as it is.
\<close>

lemma no_resubmission_nth:
  assumes "no_resubmission cs" and "i < j" and "j < length cs" and "snd (cs ! i) \<noteq> None"
  shows "call_string (cs ! i) \<noteq> call_string (cs ! j)"
  using assms
proof (induction cs arbitrary: i j)
  case Nil
  then show ?case by simp
next
  case (Cons c cs)
  obtain j' where j: "j = Suc j'" using Cons.prems(2) by (cases j) auto
  show ?case
  proof (cases i)
    case 0
    have "call_string c \<notin> set (map call_string cs)" using Cons.prems(1,4) 0 by simp
    moreover have "call_string (cs ! j') \<in> set (map call_string cs)"
      using Cons.prems(3) j by simp
    ultimately show ?thesis unfolding 0 j nth_Cons_0 nth_Cons_Suc by metis
  next
    case (Suc i')
    then show ?thesis using Cons.IH[of i' j'] Cons.prems j by simp
  qed
qed

lemma explore_one_known:
  assumes "copy tree = Inr copied" and "decrement_node copied nid c = Inr new_tree"
    and "to_talent_string new_tree = Inr s" and "dps_by_talent_str st s \<noteq> None"
  shows "explore_one env tree (nid, c) st = Inr st"
  using assms by (auto simp: explore_one_def)

text \<open>
  Claim C7, as amended. When the canonical string of a derived candidate is a key of the
  memo table, the state after the removal is the state before it, so no call of the
  simulation runner is made. In every run, no canonical string for which a call of the
  runner succeeded is submitted again: call \<open>i\<close> with an answer and a later
  call \<open>j\<close> have different strings. The keys of the memo table at the end are
  the strings of the calls that succeeded.
\<close>

theorem oracle_called_once_per_scored_string:
  "(copy tree = Inr copied \<and> decrement_node copied nid c = Inr new_tree \<and>
    to_talent_string new_tree = Inr s \<and> dps_by_talent_str st s \<noteq> None
      \<longrightarrow> explore_one env tree (nid, c) st = Inr st) \<and>
   (\<exists>r. beam_search_optimal_talents runner rnd cfg forest player locked block = Some r \<and>
      (\<forall>i j. i < j \<and> j < length (sim_calls (outcome_state r)) \<and>
             snd (sim_calls (outcome_state r) ! i) \<noteq> None
         \<longrightarrow> call_string (sim_calls (outcome_state r) ! i)
               \<noteq> call_string (sim_calls (outcome_state r) ! j)) \<and>
      (\<forall>s. dps_by_talent_str (outcome_state r) s \<noteq> None \<longleftrightarrow>
           (\<exists>call \<in> set (sim_calls (outcome_state r)).
               snd call \<noteq> None \<and> call_string call = Inr s)))"
proof (intro conjI impI)
  assume "copy tree = Inr copied \<and> decrement_node copied nid c = Inr new_tree \<and>
    to_talent_string new_tree = Inr s \<and> dps_by_talent_str st s \<noteq> None"
  then show "explore_one env tree (nid, c) st = Inr st"
    using explore_one_known by blast
next
  from beam_search_trace[of runner rnd cfg forest player locked block] obtain r where
    r: "beam_search_optimal_talents runner rnd cfg forest player locked block = Some r"
    and n: "no_resubmission (sim_calls (outcome_state r))"
    and m: "memo_matches_calls (outcome_state r)"
    by blast
  have "\<forall>i j. i < j \<and> j < length (sim_calls (outcome_state r)) \<and>
             snd (sim_calls (outcome_state r) ! i) \<noteq> None
         \<longrightarrow> call_string (sim_calls (outcome_state r) ! i)
               \<noteq> call_string (sim_calls (outcome_state r) ! j)"
    using no_resubmission_nth[OF n] by blast
  moreover have "\<forall>s. dps_by_talent_str (outcome_state r) s \<noteq> None \<longleftrightarrow>
           (\<exists>call \<in> set (sim_calls (outcome_state r)).
               snd call \<noteq> None \<and> call_string call = Inr s)"
    using m unfolding memo_matches_calls_def .
  ultimately show "\<exists>r. beam_search_optimal_talents runner rnd cfg forest player locked block = Some r \<and>
      (\<forall>i j. i < j \<and> j < length (sim_calls (outcome_state r)) \<and>
             snd (sim_calls (outcome_state r) ! i) \<noteq> None
         \<longrightarrow> call_string (sim_calls (outcome_state r) ! i)
               \<noteq> call_string (sim_calls (outcome_state r) ! j)) \<and>
      (\<forall>s. dps_by_talent_str (outcome_state r) s \<noteq> None \<longleftrightarrow>
           (\<exists>call \<in> set (sim_calls (outcome_state r)).
               snd call \<noteq> None \<and> call_string call = Inr s))"
    using r by blast
qed

theorem oracle_called_once_per_scored_string_witness:
  "copy (pair_allocation 16 16) = Inr (pair_allocation 16 16) \<and>
   decrement_node (pair_allocation 16 16) ''x'' 0 = Inr (pair_allocation 15 16) \<and>
   to_talent_string (pair_allocation 15 16) = Inr ''x:15/y:16'' \<and>
   dps_by_talent_str pair_second ''x:15/y:16'' \<noteq> None \<and>
   explore_one (example_env 3) (pair_allocation 16 16) (''x'', 0) pair_second = Inr pair_second \<and>
   beam_search_optimal_talents (failing_runner 3) no_shuffle None pair_forest example_player
     (Some example_locked) None =
     Some (Inr (\<lparr>best_tree_result = None, result_best_dps = 0\<rparr>, pair_last)) \<and>
   (1 :: nat) < 4 \<and> 4 < length (sim_calls pair_last) \<and> snd (sim_calls pair_last ! 1) \<noteq> None \<and>
   call_string (sim_calls pair_last ! 1) \<noteq> call_string (sim_calls pair_last ! 4) \<and>
   dps_by_talent_str pair_last ''x:15/y:16'' \<noteq> None \<and>
   (record_of (pair_allocation 15 16), Some \<lparr>dps = 1\<rparr>) \<in> set (sim_calls pair_last) \<and>
   call_string (record_of (pair_allocation 15 16), Some \<lparr>dps = 1\<rparr>) = Inr ''x:15/y:16''"
proof -
  note t = oracle_called_once_per_scored_string[of "pair_allocation 16 16" "pair_allocation 16 16"
      "''x''" 0 "pair_allocation 15 16" "''x:15/y:16''" pair_second "example_env 3"
      "failing_runner 3" no_shuffle None pair_forest example_player "Some example_locked" None]
  have d: "decrement_node (pair_allocation 16 16) ''x'' 0 = Inr (pair_allocation 15 16)"
    using decrement_pair(1)[of 16 16] by simp
  have m: "dps_by_talent_str pair_second ''x:15/y:16'' \<noteq> None"
    by (simp add: pair_second_def)
  have hit: "explore_one (example_env 3) (pair_allocation 16 16) (''x'', 0) pair_second = Inr pair_second"
    using t copy_pair d string_pair_values(2) m by blast
  from t obtain r where
    r: "beam_search_optimal_talents (failing_runner 3) no_shuffle None pair_forest example_player
          (Some example_locked) None = Some r"
    and n: "\<forall>i j. i < j \<and> j < length (sim_calls (outcome_state r)) \<and>
             snd (sim_calls (outcome_state r) ! i) \<noteq> None
         \<longrightarrow> call_string (sim_calls (outcome_state r) ! i)
               \<noteq> call_string (sim_calls (outcome_state r) ! j)"
    by (elim conjE exE)
  have o: "outcome_state r = pair_last"
    using r unfolding pair_run by (auto simp: outcome_state_def)
  have len: "4 < length (sim_calls pair_last)" "snd (sim_calls pair_last ! 1) \<noteq> None"
    "(record_of (pair_allocation 15 16), Some \<lparr>dps = 1\<rparr>) \<in> set (sim_calls pair_last)"
    "dps_by_talent_str pair_last ''x:15/y:16'' \<noteq> None"
    by (simp_all add: pair_last_def)
  have ne: "call_string (sim_calls pair_last ! 1) \<noteq> call_string (sim_calls pair_last ! 4)"
    using n[unfolded o, rule_format, of 1 4] len by simp
  have cs: "call_string (record_of (pair_allocation 15 16), Some \<lparr>dps = 1\<rparr>) = Inr ''x:15/y:16''"
    by (simp add: call_string_def record_of_def string_pair_values)
  show ?thesis
    using copy_pair d string_pair_values(2) m hit pair_run len ne cs by simp
qed

text \<open>
  Claim C7 as stated, that no canonical string is submitted twice, fails for a string
  whose call failed: a failed call is not entered in the memo table. Over the pair template
  with a runner that fails from its fourth call on, the two trees of the second beam both
  derive the allocation with 15 and 15 points, and its string is submitted in the calls
  number 4 and 5 (counted from 0).
\<close>

theorem oracle_resubmission_counterexample:
  "beam_search_optimal_talents (failing_runner 3) no_shuffle None pair_forest example_player
     (Some example_locked) None =
     Some (Inr (\<lparr>best_tree_result = None, result_best_dps = 0\<rparr>, pair_last)) \<and>
   map call_string (sim_calls pair_last) =
     [Inr ''x:16/y:16'', Inr ''x:15/y:16'', Inr ''x:16/y:15'', Inr ''x:14/y:16'',
      Inr ''x:15/y:15'', Inr ''x:15/y:15'', Inr ''x:16/y:14''] \<and>
   call_string (sim_calls pair_last ! 4) = call_string (sim_calls pair_last ! 5) \<and>
   \<not> distinct (map call_string (sim_calls pair_last))"
proof -
  have c: "map call_string (sim_calls pair_last) =
     [Inr ''x:16/y:16'', Inr ''x:15/y:16'', Inr ''x:16/y:15'', Inr ''x:14/y:16'',
      Inr ''x:15/y:15'', Inr ''x:15/y:15'', Inr ''x:16/y:14'']"
    by (simp add: pair_last_def call_string_def record_of_def string_pair_values)
  have "call_string (sim_calls pair_last ! 4) = call_string (sim_calls pair_last ! 5)"
    by (simp add: pair_last_def)
  moreover have "\<not> distinct (map call_string (sim_calls pair_last))"
    unfolding c by simp
  ultimately show ?thesis
    using pair_run c by simp
qed

section \<open>Failures of the simulation runner, and the lookups in the memo table\<close>

text \<open>
  What a failed call does: the call for the seed allocation ends the search with
  RuntimeError; a later one only adds the call to the calls made. And after a seed call
  that succeeded, over a template whose references resolve, the search returns a result.
\<close>

lemma explore_one_dropped:
  assumes "copy tree = Inr copied" and "decrement_node copied nid c = Inr new_tree"
    and "to_talent_string new_tree = Inr s" and "dps_by_talent_str st s = None"
    and "make_talents_record (locked_trees env) None (Some (TreeProvider new_tree)) None = Inr r"
    and "sim_runner env (length (sim_calls st)) r = None"
  shows "explore_one env tree (nid, c) st = Inr (st\<lparr>sim_calls := sim_calls st @ [(r, None)]\<rparr>)"
  using assms by (simp add: explore_one_def run_sim_eq)

lemma make_env_fields [simp]:
  "sim_runner (make_env runner rnd cfg locked) = runner"
  "random_source (make_env runner rnd cfg locked) = rnd"
  by (simp_all add: make_env_def)

lemma seed_failure_fatal:
  assumes "seed_allocation forest player block = Inr seed"
    and "make_talents_record (locked_trees (make_env runner rnd cfg locked)) None
           (Some (TreeProvider seed)) None = Inr r"
    and "runner 0 r = None"
  shows "beam_search_optimal_talents runner rnd cfg forest player locked block =
           Some (Inl (RuntimeError, initial_state\<lparr>sim_calls := [(r, None)]\<rparr>))"
  using assms
  by (simp add: beam_search_optimal_talents_def seed_search_def run_sim_eq)

lemma search_survives_oracle_failures:
  assumes sd: "seed_allocation forest player block = Inr seed"
    and rc: "make_talents_record (locked_trees (make_env runner rnd cfg locked)) None
           (Some (TreeProvider seed)) None = Inr r"
    and out: "runner 0 r = Some out"
    and refs: "template_refs_ok (spec_tree forest)"
  shows "\<exists>res final. beam_search_optimal_talents runner rnd cfg forest player locked block =
           Some (Inr (res, final)) \<and> memo_matches_calls final"
proof -
  let ?env = "make_env runner rnd cfg locked"
  have ok: "allocation_ok seed" and tt: "tree_template seed = spec_tree forest"
    using sd by (rule seed_allocation_ok)+
  from to_talent_string_ok[OF ok] obtain s where s: "to_talent_string seed = Inr s" ..
  let ?st0 = "initial_state\<lparr>sim_calls := [(r, Some out)],
                dps_by_talent_str := [s \<mapsto> dps out], beam := [seed]\<rparr>"
  have ss: "seed_search ?env forest player block = Inr ?st0"
    using sd rc out s by (simp add: seed_search_def run_sim_eq)
  have li: "loop_inv (excess seed) ?st0" using ok s rc by (rule loop_inv_seed)
  have env: "env_ok ?env" using rc by (rule make_talents_record_env_ok)
  have "\<forall>t \<in> set (beam ?st0). resolved t" using ok refs tt by (simp add: resolved_def)
  from beam_loop_ok[OF env li this] obtain final where
    f: "beam_loop ?env ?st0 = Some (Inr final)" ..
  from beam_loop_trace[OF li, of ?env] f have "trace_post (excess seed) final" by simp
  then have "memo_matches_calls final" by (simp add: trace_post_def)
  moreover have "beam_search_optimal_talents runner rnd cfg forest player locked block =
      Some (Inr (search_result ?env final, final))"
    unfolding beam_search_optimal_talents_def Let_def ss using f by simp
  ultimately show ?thesis by blast
qed

text \<open>
  Claim C9. If the simulation of the seed allocation fails, the call raises RuntimeError
  (first part). For a later candidate, a failed simulation leaves the memo table, the
  candidates and everything else of the state as they are, except that the call is counted
  among the calls made, and the removal raises nothing (second part). And if the simulation
  of the seed allocation succeeds, then whatever the runner answers afterwards the call
  returns a result, and the keys of the memo table are the strings of the calls that
  succeeded (third part; the template's child and parent references resolve, as the
  converter guarantees, so that the legality check raises nothing either).
\<close>

theorem oracle_failure_handling:
  "(seed_allocation forest player block = Inr seed \<and>
    make_talents_record (locked_trees (make_env runner rnd cfg locked)) None
      (Some (TreeProvider seed)) None = Inr seed_record \<and>
    runner 0 seed_record = None
      \<longrightarrow> beam_search_optimal_talents runner rnd cfg forest player locked block =
            Some (Inl (RuntimeError, initial_state\<lparr>sim_calls := [(seed_record, None)]\<rparr>))) \<and>
   (copy tree = Inr copied \<and> decrement_node copied nid c = Inr new_tree \<and>
    to_talent_string new_tree = Inr s \<and> dps_by_talent_str st s = None \<and>
    make_talents_record (locked_trees env) None (Some (TreeProvider new_tree)) None = Inr r \<and>
    sim_runner env (length (sim_calls st)) r = None
      \<longrightarrow> explore_one env tree (nid, c) st = Inr (st\<lparr>sim_calls := sim_calls st @ [(r, None)]\<rparr>)) \<and>
   (seed_allocation forest player block = Inr seed \<and>
    make_talents_record (locked_trees (make_env runner rnd cfg locked)) None
      (Some (TreeProvider seed)) None = Inr seed_record \<and>
    runner 0 seed_record = Some out \<and> template_refs_ok (spec_tree forest)
      \<longrightarrow> (\<exists>res final. beam_search_optimal_talents runner rnd cfg forest player locked block =
              Some (Inr (res, final)) \<and> memo_matches_calls final))"
  using seed_failure_fatal[of forest player block seed runner rnd cfg locked seed_record]
    explore_one_dropped[of tree copied nid c new_tree s st env r]
    search_survives_oracle_failures[of forest player block seed runner rnd cfg locked seed_record out]
  by blast

theorem oracle_failure_handling_witness:
  "seed_allocation pair_forest example_player None = Inr (pair_allocation 16 16) \<and>
   make_talents_record (locked_trees (make_env (failing_runner 0) no_shuffle None (Some example_locked)))
     None (Some (TreeProvider (pair_allocation 16 16))) None = Inr (record_of (pair_allocation 16 16)) \<and>
   failing_runner 0 0 (record_of (pair_allocation 16 16)) = None \<and>
   beam_search_optimal_talents (failing_runner 0) no_shuffle None pair_forest example_player
     (Some example_locked) None =
     Some (Inl (RuntimeError,
                initial_state\<lparr>sim_calls := [(record_of (pair_allocation 16 16), None)]\<rparr>)) \<and>
   copy (pair_allocation 15 16) = Inr (pair_allocation 15 16) \<and>
   decrement_node (pair_allocation 15 16) ''y'' 0 = Inr (pair_allocation 15 15) \<and>
   to_talent_string (pair_allocation 15 15) = Inr ''x:15/y:15'' \<and>
   dps_by_talent_str pair_second ''x:15/y:15'' = None \<and>
   sim_runner (example_env 3) (length (sim_calls pair_second)) (record_of (pair_allocation 15 15)) = None \<and>
   explore_one (example_env 3) (pair_allocation 15 16) (''y'', 0) pair_second =
     Inr (pair_second\<lparr>sim_calls :=
            sim_calls pair_second @ [(record_of (pair_allocation 15 15), None)]\<rparr>) \<and>
   failing_runner 3 0 (record_of (pair_allocation 16 16)) = Some \<lparr>dps = 1\<rparr> \<and>
   template_refs_ok (spec_tree pair_forest) \<and>
   (\<exists>res final. beam_search_optimal_talents (failing_runner 3) no_shuffle None pair_forest
        example_player (Some example_locked) None = Some (Inr (res, final)) \<and>
      memo_matches_calls final)"
proof -
  have rc: "make_talents_record (locked_trees (make_env (failing_runner n) no_shuffle None
         (Some example_locked))) None (Some (TreeProvider t)) None = Inr (record_of t)" for n t
    using record_pair[of n t] by (simp add: example_env_def)
  have f0: "failing_runner 0 0 (record_of (pair_allocation 16 16)) = None"
    and f3: "failing_runner 3 0 (record_of (pair_allocation 16 16)) = Some \<lparr>dps = 1\<rparr>"
    by (simp_all add: failing_runner_def)
  have refs: "template_refs_ok (spec_tree pair_forest)"
    by (simp add: pair_forest_def template_refs_ok_pair)
  have fatal: "beam_search_optimal_talents (failing_runner 0) no_shuffle None pair_forest
      example_player (Some example_locked) None =
      Some (Inl (RuntimeError,
                 initial_state\<lparr>sim_calls := [(record_of (pair_allocation 16 16), None)]\<rparr>))"
    by (rule oracle_failure_handling[of pair_forest example_player None "pair_allocation 16 16"
        "failing_runner 0" no_shuffle None "Some example_locked" "record_of (pair_allocation 16 16)",
        THEN conjunct1, rule_format, OF conjI[OF seed_pair conjI[OF rc f0]]])
  have d: "decrement_node (pair_allocation 15 16) ''y'' 0 = Inr (pair_allocation 15 15)"
    using decrement_pair(2)[of 16 15] by simp
  have m: "dps_by_talent_str pair_second ''x:15/y:15'' = None"
    by (simp add: pair_second_def)
  have fl: "sim_runner (example_env 3) (length (sim_calls pair_second))
      (record_of (pair_allocation 15 15)) = None"
    by (simp add: pair_second_def failing_runner_def)
  have dropped: "explore_one (example_env 3) (pair_allocation 15 16) (''y'', 0) pair_second =
     Inr (pair_second\<lparr>sim_calls :=
            sim_calls pair_second @ [(record_of (pair_allocation 15 15), None)]\<rparr>)"
    by (rule oracle_failure_handling[of _ _ _ _ _ _ _ _ _ "pair_allocation 15 16"
        "pair_allocation 15 16" "''y''" 0 "pair_allocation 15 15" "''x:15/y:15''" pair_second
        "example_env 3" "record_of (pair_allocation 15 15)",
        THEN conjunct2, THEN conjunct1, rule_format,
        OF conjI[OF copy_pair conjI[OF d conjI[OF string_pair_values(5)
             conjI[OF m conjI[OF record_pair fl]]]]]])
  have goes_on: "\<exists>res final. beam_search_optimal_talents (failing_runner 3) no_shuffle None
        pair_forest example_player (Some example_locked) None = Some (Inr (res, final)) \<and>
      memo_matches_calls final"
    by (rule oracle_failure_handling[of pair_forest example_player None "pair_allocation 16 16"
        "failing_runner 3" no_shuffle None "Some example_locked" "record_of (pair_allocation 16 16)"
        _ _ _ _ _ _ _ _ _ "\<lparr>dps = 1\<rparr>",
        THEN conjunct2, THEN conjunct2, rule_format,
        OF conjI[OF seed_pair conjI[OF rc conjI[OF f3 refs]]]])
  show ?thesis
    using seed_pair rc f0 fatal copy_pair d string_pair_values(5) m fl dropped f3 refs goes_on
    by (intro conjI)
qed

text \<open>
  The states in which the loop starts a pass satisfy the invariant of the loop, so every
  allocation of the beam has its string in the memo table; and the table only grows during
  a pass.
\<close>

lemma seed_state_inv:
  assumes "seed_search env forest player block = Inr st0"
  shows "\<exists>M. loop_inv M st0"
proof (cases rule: seed_search_cases[of forest player block env])
  case (no_seed e)
  then show ?thesis using assms by simp
next
  case (no_record seed e)
  then show ?thesis using assms by simp
next
  case (sim_failed seed r)
  then show ?thesis using assms by simp
next
  case (started seed r out s)
  have ok: "allocation_ok seed" using started(1) by (rule seed_allocation_ok)
  have "loop_inv (excess seed) (initial_state\<lparr>sim_calls := [(r, Some out)],
                dps_by_talent_str := [s \<mapsto> dps out], beam := [seed]\<rparr>)"
    using ok started(4,2) by (rule loop_inv_seed)
  then show ?thesis using assms started(5) by auto
qed

lemma beam_in_memo:
  assumes "seed_search env forest player block = Inr st0" and "loop_state env st0 st"
    and "t \<in> set (beam st)"
  shows "in_memo st t"
proof -
  from seed_state_inv[OF assms(1)] obtain M where "loop_inv M st0" ..
  with assms(2) have "loop_inv M st" by (rule loop_state_inv)
  then show ?thesis using assms(3) by (simp add: loop_inv_def)
qed

lemma beam_lookup_succeeds:
  assumes "seed_search env forest player block = Inr st0" and "loop_state env st0 st"
    and b: "beam st = pre @ t # rest"
    and p: "process_beam env pre (pass_start st) = Inr st_mid"
    and v: "get_total_points_spent t \<le> get_total_points_available t"
  shows "\<exists>s d. to_talent_string t = Inr s \<and> dps_by_talent_str st_mid s = Some d \<and>
           process_tree env t st_mid =
             Inr (st_mid\<lparr>candidates := candidates st_mid @ [(t, d)],
                    best_tree_so_far :=
                      (if d > best_dps st_mid then Some t else best_tree_so_far st_mid),
                    best_dps := (if d > best_dps st_mid then d else best_dps st_mid)\<rparr>)"
proof -
  have "t \<in> set (beam st)" using b by simp
  with assms(1,2) have "in_memo st t" by (rule beam_in_memo)
  then have "in_memo (pass_start st) t" by simp
  moreover have "extends (pass_start st) st_mid"
    using process_beam_extends[of "pass_start st" env pre] p by simp
  ultimately have "in_memo st_mid t" using in_memo_extends by blast
  then obtain s d where "to_talent_string t = Inr s" "dps_by_talent_str st_mid s = Some d"
    by (auto simp: in_memo_def)
  then show ?thesis using v by (simp add: process_tree_def)
qed

text \<open>
  Claim C10. In every state in which the loop starts a pass, after a seed simulation that
  succeeded, the canonical string of every allocation of the beam is a key of the memo
  table (first part). And when the loop over the beam reaches an allocation that is within
  its budget, in the state left by the allocations before it, the lookup of its string
  finds a value and the body of the loop appends the allocation to the candidates: the
  branch of the missing key is not taken (second part).
\<close>

theorem beam_members_memoized:
  assumes "seed_search env forest player block = Inr st0" and "loop_state env st0 st"
  shows "(t \<in> set (beam st) \<longrightarrow>
            (\<exists>s d. to_talent_string t = Inr s \<and> dps_by_talent_str st s = Some d)) \<and>
         (beam st = pre @ t # rest \<and> process_beam env pre (pass_start st) = Inr st_mid \<and>
          get_total_points_spent t \<le> get_total_points_available t \<longrightarrow>
            (\<exists>s d. to_talent_string t = Inr s \<and> dps_by_talent_str st_mid s = Some d \<and>
               process_tree env t st_mid =
                 Inr (st_mid\<lparr>candidates := candidates st_mid @ [(t, d)],
                        best_tree_so_far :=
                          (if d > best_dps st_mid then Some t else best_tree_so_far st_mid),
                        best_dps := (if d > best_dps st_mid then d else best_dps st_mid)\<rparr>)))"
proof (intro conjI impI)
  assume "t \<in> set (beam st)"
  with assms have "in_memo st t" by (rule beam_in_memo)
  then show "\<exists>s d. to_talent_string t = Inr s \<and> dps_by_talent_str st s = Some d"
    by (auto simp: in_memo_def)
next
  assume a: "beam st = pre @ t # rest \<and> process_beam env pre (pass_start st) = Inr st_mid \<and>
          get_total_points_spent t \<le> get_total_points_available t"
  show "\<exists>s d. to_talent_string t = Inr s \<and> dps_by_talent_str st_mid s = Some d \<and>
               process_tree env t st_mid =
                 Inr (st_mid\<lparr>candidates := candidates st_mid @ [(t, d)],
                        best_tree_so_far :=
                          (if d > best_dps st_mid then Some t else best_tree_so_far st_mid),
                        best_dps := (if d > best_dps st_mid then d else best_dps st_mid)\<rparr>)"
    using beam_lookup_succeeds[OF assms] a by blast
qed

theorem beam_members_memoized_witness:
  "seed_search (example_env 3) pair_forest example_player None = Inr pair_started \<and>
   loop_state (example_env 3) pair_started pair_second \<and>
   pair_allocation 16 15 \<in> set (beam pair_second) \<and>
   (\<exists>s d. to_talent_string (pair_allocation 16 15) = Inr s \<and>
          dps_by_talent_str pair_second s = Some d) \<and>
   seed_search (example_env 3) example_forest example_player None = Inr example_started \<and>
   loop_state (example_env 3) example_started example_started \<and>
   beam example_started = [] @ example_seed # [] \<and>
   process_beam (example_env 3) [] (pass_start example_started) = Inr (pass_start example_started) \<and>
   get_total_points_spent example_seed \<le> get_total_points_available example_seed \<and>
   (\<exists>s d. to_talent_string example_seed = Inr s \<and>
          dps_by_talent_str (pass_start example_started) s = Some d \<and>
          process_tree (example_env 3) example_seed (pass_start example_started) =
            Inr ((pass_start example_started)
                  \<lparr>candidates := candidates (pass_start example_started) @ [(example_seed, d)],
                   best_tree_so_far :=
                     (if d > best_dps (pass_start example_started) then Some example_seed
                      else best_tree_so_far (pass_start example_started)),
                   best_dps := (if d > best_dps (pass_start example_started) then d
                                else best_dps (pass_start example_started))\<rparr>))"
proof -
  have s1: "seed_search (example_env 3) pair_forest example_player None = Inr pair_started"
    by (rule seed_search_pair) simp
  have b1: "beam pair_started \<noteq> []" by (simp add: pair_started_def)
  have l1: "loop_state (example_env 3) pair_started pair_second"
    using loop_state.first b1 pair_first_pass by (rule loop_state.pass)
  have m1: "pair_allocation 16 15 \<in> set (beam pair_second)" by (simp add: pair_second_def)
  have c1: "\<exists>s d. to_talent_string (pair_allocation 16 15) = Inr s \<and>
          dps_by_talent_str pair_second s = Some d"
    by (rule beam_members_memoized[OF s1 l1, of "pair_allocation 16 15", THEN conjunct1,
        rule_format, OF m1])
  have s2: "seed_search (example_env 3) example_forest example_player None = Inr example_started"
    by (rule seed_search_example) simp
  have l2: "loop_state (example_env 3) example_started example_started" by (rule loop_state.first)
  have b2: "beam example_started = [] @ example_seed # []" by (simp add: example_started_def)
  have p2: "process_beam (example_env 3) [] (pass_start example_started) =
      Inr (pass_start example_started)" by simp
  have v2: "get_total_points_spent example_seed \<le> get_total_points_available example_seed"
    by (simp add: totals_example_seed)
  note c2 = beam_members_memoized[OF s2 l2, of example_seed "[]" "[]" "pass_start example_started",
      THEN conjunct2, rule_format, OF conjI[OF b2 conjI[OF p2 v2]]]
  show ?thesis
    using s1 l1 m1 c1 s2 l2 b2 p2 v2 c2 by (intro conjI)
qed

end
